theory Spec2Isabelle
  imports Complex_Main
begin

section \<open>EDM scoring of semantic dependency graphs (mrs/eval\_edm\_json.py)\<close>

text \<open>
  A shallow embedding of the scorer. Python strings are \<open>string\<close>s of ASCII characters,
  Python integers are \<open>int\<close>, exceptions are values of \<open>error\<close> on the left of a sum,
  and the floats of the final scores are exact rationals (rounding is not modelled, nor is
  the limit Python puts on the number of digits of \<^verbatim>\<open>str\<close> and \<^verbatim>\<open>int\<close>). Printing is left out:
  \<^verbatim>\<open>compute_f1\<close> returns the scores it prints.
\<close>

datatype error = AssertionError | ZeroDivisionError | IndexError | KeyError | ValueError

subsection \<open>Python string primitives\<close>

text \<open>\<^verbatim>\<open>s.split(sep)\<close> for a one-character separator: every occurrence cuts, empty pieces are kept.\<close>

fun py_split :: "char \<Rightarrow> string \<Rightarrow> string list" where
  "py_split sep [] = [[]]"
| "py_split sep (c # cs) =
     (if c = sep then [] # py_split sep cs
      else (case py_split sep cs of [] \<Rightarrow> [[c]] | p # ps \<Rightarrow> (c # p) # ps))"

text \<open>\<^verbatim>\<open>s.replace(old, new)\<close>: non-overlapping occurrences, leftmost first; an empty \<open>old\<close>
  matches before every character and at the end.\<close>

fun py_insert_between :: "string \<Rightarrow> string \<Rightarrow> string" where
  "py_insert_between new [] = new"
| "py_insert_between new (c # cs) = new @ c # py_insert_between new cs"

function py_replace_ne :: "string \<Rightarrow> string \<Rightarrow> string \<Rightarrow> string" where
  "py_replace_ne old new s =
     (if s = [] \<or> old = [] then s
      else if take (length old) s = old then new @ py_replace_ne old new (drop (length old) s)
      else hd s # py_replace_ne old new (tl s))"
  by pat_completeness auto
termination
  by (relation "measure (\<lambda>(old, new, s). length s)") auto

definition py_replace :: "string \<Rightarrow> string \<Rightarrow> string \<Rightarrow> string" where
  "py_replace s old new = (if old = [] then py_insert_between new s else py_replace_ne old new s)"

text \<open>\<^verbatim>\<open>str(i)\<close> of an integer: decimal digits, a minus sign for negative numbers.\<close>

definition digit_chr :: "nat \<Rightarrow> char" where
  "digit_chr d = ''0123456789'' ! d"

fun str_nat :: "nat \<Rightarrow> string" where
  "str_nat n = (if n < 10 then [digit_chr n] else str_nat (n div 10) @ [digit_chr (n mod 10)])"

definition str_int :: "int \<Rightarrow> string" where
  "str_int i = (if i < 0 then CHR ''-'' # str_nat (nat (- i)) else str_nat (nat i))"

text \<open>\<^verbatim>\<open>int(s)\<close> of a string: surrounding whitespace is stripped, one sign is allowed, and the
  digits may be grouped by single underscores; anything else raises ValueError.\<close>

definition digit_val :: "char \<Rightarrow> nat option" where
  "digit_val c = map_of (zip ''0123456789'' [0 ..< 10]) c"

definition is_space :: "char \<Rightarrow> bool" where
  "is_space c = (c \<in> set [CHR 0x09, CHR 0x0A, CHR 0x0B, CHR 0x0C, CHR 0x0D, CHR 0x20])"

definition py_strip :: "string \<Rightarrow> string" where
  "py_strip s = rev (dropWhile is_space (rev (dropWhile is_space s)))"

fun parse_digits :: "nat \<Rightarrow> string \<Rightarrow> nat option" where
  "parse_digits acc [] = Some acc"
| "parse_digits acc [c] =
     (case digit_val c of None \<Rightarrow> None | Some d \<Rightarrow> Some (10 * acc + d))"
| "parse_digits acc (c # c' # cs) =
     (case digit_val c of
        Some d \<Rightarrow> parse_digits (10 * acc + d) (c' # cs)
      | None \<Rightarrow>
          (if c = CHR ''_'' then
             (case digit_val c' of None \<Rightarrow> None | Some d \<Rightarrow> parse_digits (10 * acc + d) cs)
           else None))"

definition parse_decimal :: "string \<Rightarrow> nat option" where
  "parse_decimal s =
     (case s of [] \<Rightarrow> None
      | c # cs \<Rightarrow> (case digit_val c of None \<Rightarrow> None | Some d \<Rightarrow> parse_digits d cs))"

definition py_int :: "string \<Rightarrow> error + int" where
  "py_int s =
     (case py_strip s of
        [] \<Rightarrow> Inl ValueError
      | c # cs \<Rightarrow>
          (if c = CHR ''-'' then
             (case parse_decimal cs of None \<Rightarrow> Inl ValueError | Some n \<Rightarrow> Inr (- int n))
           else if c = CHR ''+'' then
             (case parse_decimal cs of None \<Rightarrow> Inl ValueError | Some n \<Rightarrow> Inr (int n))
           else
             (case parse_decimal (c # cs) of None \<Rightarrow> Inl ValueError | Some n \<Rightarrow> Inr (int n))))"

text \<open>A list comprehension whose element expression may raise stops at the first exception.\<close>

fun map_result :: "('a \<Rightarrow> error + 'b) \<Rightarrow> 'a list \<Rightarrow> error + 'b list" where
  "map_result f [] = Inr []"
| "map_result f (x # xs) =
     (case f x of
        Inl e \<Rightarrow> Inl e
      | Inr y \<Rightarrow> (case map_result f xs of Inl e \<Rightarrow> Inl e | Inr ys \<Rightarrow> Inr (y # ys)))"

subsection \<open>Graph model: MrsNode and MrsGraph\<close>

text \<open>The fields of class \<^verbatim>\<open>MrsNode\<close>; \<open>endpos\<close> is the attribute \<^verbatim>\<open>end\<close> and \<open>top_flag\<close> the
  attribute \<^verbatim>\<open>top\<close>, \<open>constant_val\<close> the attribute \<^verbatim>\<open>constant\<close>. \<open>edges\<close> and \<open>relations\<close> are the two parallel lists filled by
  \<^verbatim>\<open>append_edge\<close>.\<close>

record MrsNode =
  name :: string
  concept :: string
  start :: int
  endpos :: int
  constant_val :: string
  top_flag :: bool
  edges :: "nat list"
  relations :: "string list"

definition MrsNode_init :: "string \<Rightarrow> string \<Rightarrow> int \<Rightarrow> int \<Rightarrow> MrsNode" where
  "MrsNode_init nm c s e =
     \<lparr>name = nm, concept = c, start = s, endpos = e, constant_val = [], top_flag = False,
      edges = [], relations = []\<rparr>"

definition span_str :: "MrsNode \<Rightarrow> bool \<Rightarrow> string" where
  "span_str node include_end =
     (if include_end then str_int (start node) @ '':'' @ str_int (endpos node)
      else str_int (start node) @ '':'' @ str_int (start node))"

definition append_edge :: "MrsNode \<Rightarrow> nat \<Rightarrow> string \<Rightarrow> MrsNode" where
  "append_edge node child_index relation =
     node\<lparr>edges := edges node @ [child_index], relations := relations node @ [relation]\<rparr>"

record MrsGraph =
  nodes :: "MrsNode list"
  parse_id :: int

subsection \<open>Graph construction from a deserialized record\<close>

text \<open>The deserialized JSON record with the schema the scorer reads: optional keys are
  \<open>option\<close>s (\<^verbatim>\<open>"constant" in props\<close>, \<^verbatim>\<open>"top" in node\<close>, \<^verbatim>\<open>"edges" in node\<close>).\<close>

record json_edge =
  target :: int
  label :: string

record json_node =
  node_id :: int
  predicate :: string
  constant_prop :: "string option"
  node_start :: int
  node_end :: int
  node_top :: "bool option"
  node_edges :: "json_edge list option"

record json_mrs =
  mrs_id :: int
  mrs_nodes :: "json_node list"

definition dquote :: char where
  "dquote = CHR 0x22"

text \<open>Lines 95 to 99: \<^verbatim>\<open>const[0]\<close> raises IndexError on the empty string.\<close>

definition quote_constant :: "string \<Rightarrow> error + string" where
  "quote_constant const =
     (case const of
        [] \<Rightarrow> Inl IndexError
      | c # _ \<Rightarrow>
          (let const1 = (if c \<noteq> dquote then dquote # const else const);
               const2 = (if last const1 \<noteq> dquote then const1 @ [dquote] else const1)
           in Inr const2))"

text \<open>First loop of \<^verbatim>\<open>parse_orig_json_line\<close>: the nodes and the index of node ids.\<close>

fun parse_nodes ::
  "json_node list \<Rightarrow> MrsNode list \<Rightarrow> (int \<rightharpoonup> nat) \<Rightarrow> error + (MrsNode list \<times> (int \<rightharpoonup> nat))" where
  "parse_nodes [] nodes_acc nodes_index = Inr (nodes_acc, nodes_index)"
| "parse_nodes (node # rest) nodes_acc nodes_index =
     (let nid = node_id node - 1;
          nodes_index' = nodes_index(nid \<mapsto> length nodes_acc);
          graph_node = MrsNode_init (str_int nid) (predicate node) (node_start node) (node_end node)
      in case (case constant_prop node of
                 None \<Rightarrow> Inr graph_node
               | Some const \<Rightarrow>
                   (case quote_constant const of
                      Inl e \<Rightarrow> Inl e
                    | Inr c \<Rightarrow> Inr (graph_node\<lparr>constant_val := c\<rparr>))) of
           Inl e \<Rightarrow> Inl e
         | Inr graph_node1 \<Rightarrow>
             (let graph_node2 =
                    (if node_top node = Some True then graph_node1\<lparr>top_flag := True\<rparr>
                     else graph_node1)
              in parse_nodes rest (nodes_acc @ [graph_node2]) nodes_index'))"

text \<open>Second loop: the edges of one node record, then of all of them. A missing key of
  \<^verbatim>\<open>nodes_index\<close> raises KeyError.\<close>

fun add_edges ::
  "(int \<rightharpoonup> nat) \<Rightarrow> nat \<Rightarrow> json_edge list \<Rightarrow> MrsNode list \<Rightarrow> error + MrsNode list" where
  "add_edges nodes_index parent_ind [] nodes_acc = Inr nodes_acc"
| "add_edges nodes_index parent_ind (edge # rest) nodes_acc =
     (case nodes_index (target edge - 1) of
        None \<Rightarrow> Inl KeyError
      | Some child_ind \<Rightarrow>
          (if parent_ind < length nodes_acc then
             add_edges nodes_index parent_ind rest
               (nodes_acc[parent_ind := append_edge (nodes_acc ! parent_ind) child_ind (label edge)])
           else Inl IndexError))"

fun parse_edges ::
  "(int \<rightharpoonup> nat) \<Rightarrow> json_node list \<Rightarrow> MrsNode list \<Rightarrow> error + MrsNode list" where
  "parse_edges nodes_index [] nodes_acc = Inr nodes_acc"
| "parse_edges nodes_index (node # rest) nodes_acc =
     (case nodes_index (node_id node - 1) of
        None \<Rightarrow> Inl KeyError
      | Some parent_ind \<Rightarrow>
          (case node_edges node of
             None \<Rightarrow> parse_edges nodes_index rest nodes_acc
           | Some es \<Rightarrow>
               (case add_edges nodes_index parent_ind es nodes_acc of
                  Inl e \<Rightarrow> Inl e
                | Inr nodes_acc' \<Rightarrow> parse_edges nodes_index rest nodes_acc')))"

definition parse_orig_json_line :: "json_mrs \<Rightarrow> error + MrsGraph" where
  "parse_orig_json_line mrs =
     (case parse_nodes (mrs_nodes mrs) [] Map.empty of
        Inl e \<Rightarrow> Inl e
      | Inr (ns, nodes_index) \<Rightarrow>
          (case parse_edges nodes_index (mrs_nodes mrs) ns of
             Inl e \<Rightarrow> Inl e
           | Inr ns' \<Rightarrow> Inr \<lparr>nodes = ns', parse_id = mrs_id mrs\<rparr>))"

subsection \<open>Triple extractor\<close>

fun predicate_bag :: "MrsNode list \<Rightarrow> bool \<Rightarrow> string list" where
  "predicate_bag [] include_constants = []"
| "predicate_bag (node # rest) include_constants =
     (concept node #
      (if include_constants \<and> constant_val node \<noteq> [] then [constant_val node] else []))
     @ predicate_bag rest include_constants"

fun predicate_triples :: "MrsNode list \<Rightarrow> bool \<Rightarrow> bool \<Rightarrow> string list" where
  "predicate_triples [] include_constants include_span_ends = []"
| "predicate_triples (node # rest) include_constants include_span_ends =
     ((span_str node include_span_ends @ '' NAME '' @ concept node) #
      (if include_constants \<and> constant_val node \<noteq> []
       then [span_str node include_span_ends @ '' CARG '' @ constant_val node] else []))
     @ predicate_triples rest include_constants include_span_ends"

text \<open>First loop of \<^verbatim>\<open>relation_triples\<close>: one root marker for each top node.\<close>

fun top_triples :: "MrsNode list \<Rightarrow> bool \<Rightarrow> string list" where
  "top_triples [] include_span_ends = []"
| "top_triples (node # rest) include_span_ends =
     (if top_flag node then [''-1:-1 /H '' @ span_str node include_span_ends] else [])
     @ top_triples rest include_span_ends"

text \<open>The inner loop over \<^verbatim>\<open>enumerate(node.edges)\<close>. The variable \<^verbatim>\<open>node_ind\<close> is assigned
  before the loop and overwritten by the swap of line 150, so it is threaded through the
  iterations together with the list of triples. \<^verbatim>\<open>self.nodes[child_index]\<close> and
  \<^verbatim>\<open>node.relations[k]\<close> raise IndexError out of range.\<close>

fun edge_triples ::
  "MrsNode list \<Rightarrow> bool \<Rightarrow> bool \<Rightarrow> MrsNode \<Rightarrow> (nat \<times> nat) list \<Rightarrow> string \<Rightarrow> string list
     \<Rightarrow> error + string list" where
  "edge_triples ns include_span_ends lbl node [] node_ind triples = Inr triples"
| "edge_triples ns include_span_ends lbl node ((k, child_index) # rest) node_ind triples =
     (if length ns \<le> child_index then Inl IndexError
      else if length (relations node) \<le> k then Inl IndexError
      else
        (let child_node = ns ! child_index;
             child_ind = span_str child_node include_span_ends;
             swap = (relations node ! k = ''/EQ'' \<and>
                     (start node > start child_node \<or>
                      (start node = start child_node \<and> endpos node > endpos child_node)));
             node_ind' = (if swap then child_ind else node_ind);
             child_ind' = (if swap then node_ind else child_ind);
             rel = (if lbl then relations node ! k else ''REL'');
             rel' = (if rel = ''/EQ'' then ''/EQ/U'' else rel)
         in edge_triples ns include_span_ends lbl node rest node_ind'
              (triples @ [node_ind' @ '' '' @ rel' @ '' '' @ child_ind'])))"

text \<open>The second loop over the nodes; \<open>todo\<close> is the rest of \<^verbatim>\<open>self.nodes\<close> still to visit.\<close>

fun node_edge_triples ::
  "MrsNode list \<Rightarrow> bool \<Rightarrow> bool \<Rightarrow> MrsNode list \<Rightarrow> string list \<Rightarrow> error + string list" where
  "node_edge_triples ns include_span_ends lbl [] triples = Inr triples"
| "node_edge_triples ns include_span_ends lbl (node # todo) triples =
     (case edge_triples ns include_span_ends lbl node (enumerate 0 (edges node))
             (span_str node include_span_ends) triples of
        Inl e \<Rightarrow> Inl e
      | Inr triples' \<Rightarrow> node_edge_triples ns include_span_ends lbl todo triples')"

definition relation_triples :: "MrsGraph \<Rightarrow> bool \<Rightarrow> bool \<Rightarrow> error + string list" where
  "relation_triples g include_span_ends lbl =
     node_edge_triples (nodes g) include_span_ends lbl (nodes g)
       (top_triples (nodes g) include_span_ends)"

text \<open>The keyword arguments of \<^verbatim>\<open>compute_f1\<close> and \<^verbatim>\<open>eds_triples\<close>; \<^verbatim>\<open>verbose\<close> only prints and is
  left out.\<close>

record config =
  score_predicates :: bool
  score_relations :: bool
  include_constants :: bool
  labeled :: bool
  include_span_ends :: bool
  include_predicate_spans :: bool
  score_nones :: bool

definition eds_triples :: "MrsGraph \<Rightarrow> config \<Rightarrow> error + string list" where
  "eds_triples g cfg =
     (let triples1 =
            (if score_predicates cfg then
               (if include_predicate_spans cfg
                then predicate_triples (nodes g) (include_constants cfg) (include_span_ends cfg)
                else predicate_bag (nodes g) (include_constants cfg))
             else [])
      in if score_relations cfg then
           (case relation_triples g (include_span_ends cfg) (labeled cfg) of
              Inl e \<Rightarrow> Inl e
            | Inr rs \<Rightarrow> Inr (triples1 @ rs))
         else Inr triples1)"

subsection \<open>Span reconciler\<close>

text \<open>\<^verbatim>\<open>list_spans\<close> collects the spans in a Python set and returns \<^verbatim>\<open>list(spans)\<close>.
  \<open>spans_added\<close> is the sequence of the \<^verbatim>\<open>spans.add\<close> calls. The order in which a set of
  strings is enumerated is fixed by the hash table and not by the source, so the
  enumeration is a parameter \<open>set_list\<close>, applied to the sequence of insertions;
  \<open>set_list_ok\<close> says what every enumeration of a set satisfies.\<close>

fun spans_added :: "string list \<Rightarrow> string list" where
  "spans_added [] = []"
| "spans_added (triple # rest) =
     (let parts = py_split CHR '' '' triple
      in if length parts > 1 \<and> (parts ! 1 = ''NAME'' \<or> parts ! 1 = ''CARG'') then [parts ! 0]
         else if length parts > 2 then [parts ! 0, parts ! 2]
         else [])
     @ spans_added rest"

definition set_list_ok :: "(string list \<Rightarrow> string list) \<Rightarrow> bool" where
  "set_list_ok set_list = (\<forall>xs. distinct (set_list xs) \<and> set (set_list xs) = set xs)"

definition list_spans :: "(string list \<Rightarrow> string list) \<Rightarrow> string list \<Rightarrow> string list" where
  "list_spans set_list triples = set_list (spans_added triples)"

text \<open>One element of the comprehensions of \<^verbatim>\<open>inc_end_spans\<close> (\<open>delta = 1\<close>) and
  \<^verbatim>\<open>dec_end_spans\<close> (\<open>delta = -1\<close>).\<close>

definition shift_end :: "int \<Rightarrow> string \<Rightarrow> error + string" where
  "shift_end delta sp =
     (let parts = py_split CHR '':'' sp
      in if length parts \<le> 1 then Inl IndexError
         else (case py_int (parts ! 1) of
                 Inl e \<Rightarrow> Inl e
               | Inr v \<Rightarrow> Inr (parts ! 0 @ '':'' @ str_int (v + delta))))"

definition inc_end_spans :: "string list \<Rightarrow> error + string list" where
  "inc_end_spans spans = map_result (shift_end 1) spans"

definition dec_end_spans :: "string list \<Rightarrow> error + string list" where
  "dec_end_spans spans = map_result (shift_end (- 1)) spans"

text \<open>The closure \<^verbatim>\<open>replace_new_spans\<close>: \<open>gold_spans\<close>, \<open>predicted_spans\<close> and the list
  \<open>predicted_triples\<close> it rewrites are its free variables; the rewritten list is returned.\<close>

fun replace_new_spans ::
  "string set \<Rightarrow> string list \<Rightarrow> (nat \<times> string) list \<Rightarrow> string list \<Rightarrow> error + string list" where
  "replace_new_spans gold_spans predicted_spans [] predicted_triples = Inr predicted_triples"
| "replace_new_spans gold_spans predicted_spans ((i, new_span) # rest) predicted_triples =
     (if length predicted_spans \<le> i then Inl IndexError
      else
        (let old_span = predicted_spans ! i
         in if old_span \<notin> gold_spans \<and> new_span \<in> gold_spans then
              replace_new_spans gold_spans predicted_spans rest
                (map (\<lambda>triple. py_replace triple old_span new_span) predicted_triples)
            else replace_new_spans gold_spans predicted_spans rest predicted_triples))"

text \<open>Lines 199 to 212 of \<^verbatim>\<open>compute_f1\<close>.\<close>

definition reconcile ::
  "(string list \<Rightarrow> string list) \<Rightarrow> string list \<Rightarrow> string list \<Rightarrow> error + string list" where
  "reconcile set_list gold_triples predicted_triples =
     (let gold_spans = set (list_spans set_list gold_triples);
          predicted_spans = list_spans set_list predicted_triples
      in case inc_end_spans predicted_spans of
           Inl e \<Rightarrow> Inl e
         | Inr new1 \<Rightarrow>
             (case replace_new_spans gold_spans predicted_spans (enumerate 0 new1)
                     predicted_triples of
                Inl e \<Rightarrow> Inl e
              | Inr triples1 \<Rightarrow>
                  (case dec_end_spans predicted_spans of
                     Inl e \<Rightarrow> Inl e
                   | Inr new2 \<Rightarrow>
                       replace_new_spans gold_spans predicted_spans (enumerate 0 new2)
                         triples1)))"

subsection \<open>Scorer\<close>

text \<open>Lines 184 to 194: the triples of one gold item and of its prediction. The gold corpus
  is the list of the items of the dictionary, the predicted corpus a map.\<close>

definition item_triples ::
  "(int \<rightharpoonup> MrsGraph) \<Rightarrow> config \<Rightarrow> int \<times> MrsGraph \<Rightarrow> error + (string list \<times> string list)" where
  "item_triples predicted_graphs cfg item =
     (case eds_triples (snd item) cfg of
        Inl e \<Rightarrow> Inl e
      | Inr gold_triples \<Rightarrow>
          (case predicted_graphs (fst item) of
             Some pg \<Rightarrow>
               (case eds_triples pg cfg of
                  Inl e \<Rightarrow> Inl e
                | Inr predicted_triples \<Rightarrow> Inr (gold_triples, predicted_triples))
           | None \<Rightarrow> Inr (if score_nones cfg then gold_triples else [], [])))"

text \<open>Lines 199 to 233: the three counts one item adds to the totals.\<close>

definition score_item ::
  "(string list \<Rightarrow> string list) \<Rightarrow> (int \<rightharpoonup> MrsGraph) \<Rightarrow> config \<Rightarrow> int \<times> MrsGraph
     \<Rightarrow> error + (nat \<times> nat \<times> nat)" where
  "score_item set_list predicted_graphs cfg item =
     (case item_triples predicted_graphs cfg item of
        Inl e \<Rightarrow> Inl e
      | Inr (gold_triples, predicted_triples) \<Rightarrow>
          (case reconcile set_list gold_triples predicted_triples of
             Inl e \<Rightarrow> Inl e
           | Inr predicted_triples' \<Rightarrow>
               (let gold_set = set gold_triples;
                    predicted_set = set predicted_triples';
                    correct_triples = gold_set \<inter> predicted_set
                in Inr (card gold_set, card predicted_set, card correct_triples))))"

fun score_items ::
  "(string list \<Rightarrow> string list) \<Rightarrow> (int \<rightharpoonup> MrsGraph) \<Rightarrow> config \<Rightarrow> (int \<times> MrsGraph) list
     \<Rightarrow> nat \<times> nat \<times> nat \<Rightarrow> error + (nat \<times> nat \<times> nat)" where
  "score_items set_list predicted_graphs cfg [] totals = Inr totals"
| "score_items set_list predicted_graphs cfg (item # rest) (total_gold, total_predicted, total_correct) =
     (case score_item set_list predicted_graphs cfg item of
        Inl e \<Rightarrow> Inl e
      | Inr (g, p, c) \<Rightarrow>
          score_items set_list predicted_graphs cfg rest
            (total_gold + g, total_predicted + p, total_correct + c))"

text \<open>Lines 235 to 242. The result is (precision, recall, f1); a division by zero raises
  ZeroDivisionError.\<close>

definition py_div :: "rat \<Rightarrow> rat \<Rightarrow> error + rat" where
  "py_div a b = (if b = 0 then Inl ZeroDivisionError else Inr (a / b))"

definition final_scores :: "nat \<times> nat \<times> nat \<Rightarrow> error + (rat \<times> rat \<times> rat)" where
  "final_scores totals =
     (case totals of (total_gold, total_predicted, total_correct) \<Rightarrow>
        if \<not> (total_predicted > 0 \<and> total_gold > 0) then Inl AssertionError
        else
          (case py_div (of_nat total_correct) (of_nat total_predicted) of
             Inl e \<Rightarrow> Inl e
           | Inr precision \<Rightarrow>
               (case py_div (of_nat total_correct) (of_nat total_gold) of
                  Inl e \<Rightarrow> Inl e
                | Inr recall \<Rightarrow>
                    (case py_div (2 * precision * recall) (precision + recall) of
                       Inl e \<Rightarrow> Inl e
                     | Inr f1 \<Rightarrow> Inr (precision, recall, f1)))))"

definition compute_f1 ::
  "(string list \<Rightarrow> string list) \<Rightarrow> (int \<times> MrsGraph) list \<Rightarrow> (int \<rightharpoonup> MrsGraph) \<Rightarrow> config
     \<Rightarrow> error + (rat \<times> rat \<times> rat)" where
  "compute_f1 set_list gold_graphs predicted_graphs cfg =
     (case score_items set_list predicted_graphs cfg gold_graphs (0, 0, 0) of
        Inl e \<Rightarrow> Inl e
      | Inr totals \<Rightarrow> final_scores totals)"

text \<open>The shape every constructed graph has: the two edge lists of a node are equally long
  and every child index is the index of a node.\<close>

definition wf_graph :: "MrsGraph \<Rightarrow> bool" where
  "wf_graph g =
     (\<forall>node \<in> set (nodes g).
        length (relations node) = length (edges node) \<and>
        (\<forall>child_index \<in> set (edges node). child_index < length (nodes g)))"

subsection \<open>The reconciler as pure transformations\<close>

text \<open>One step of a pass of the reconciler, for a predicted span and its shifted
  counterpart, and a whole pass over the predicted spans paired with their counterparts.
  \<^verbatim>\<open>replace_new_spans\<close> is shown below to compute \<open>shift_pass\<close>.\<close>

definition rewrite_step :: "string set \<Rightarrow> string \<times> string \<Rightarrow> string list \<Rightarrow> string list" where
  "rewrite_step gold_spans p triples =
     (if fst p \<notin> gold_spans \<and> snd p \<in> gold_spans
      then map (\<lambda>triple. py_replace triple (fst p) (snd p)) triples else triples)"

definition shift_pass ::
  "string set \<Rightarrow> string list \<Rightarrow> string list \<Rightarrow> string list \<Rightarrow> string list" where
  "shift_pass gold_spans predicted_spans new_spans triples =
     fold (rewrite_step gold_spans) (zip predicted_spans new_spans) triples"

text \<open>The predicted spans as the specification describes them: the spans of the predicted
  triples in the order of the triples, duplicates kept.\<close>

definition spec_predicted_spans :: "string list \<Rightarrow> string list" where
  "spec_predicted_spans predicted_triples = spans_added predicted_triples"

subsection \<open>The scorer on a store of list objects\<close>

text \<open>
  For the question of what a scorer call writes, the same code with its mutable objects
  made explicit. The state holds the two corpora, which the scorer receives, and the store
  of the Python list objects that hold triples: a list object is its index in
  \<open>list_heap\<close>, and a new one is put at the end, so it is distinct from every object that
  exists. \<^verbatim>\<open>eds_triples\<close> creates the list it returns (\<^verbatim>\<open>triples = []\<close>) and only reads the
  graph; the assignment \<^verbatim>\<open>predicted_triples[j] = ...\<close> of line 207 writes one element of
  one list object. An exception leaves the state as it is when it is raised.
\<close>

record pystate =
  gold_corpus :: "(int \<times> MrsGraph) list"
  predicted_corpus :: "int \<rightharpoonup> MrsGraph"
  list_heap :: "string list list"

definition new_list :: "string list \<Rightarrow> pystate \<Rightarrow> nat \<times> pystate" where
  "new_list xs s = (length (list_heap s), s\<lparr>list_heap := list_heap s @ [xs]\<rparr>)"

definition get_list :: "pystate \<Rightarrow> nat \<Rightarrow> string list" where
  "get_list s a = (if a < length (list_heap s) then list_heap s ! a else [])"

definition set_item :: "nat \<Rightarrow> nat \<Rightarrow> string \<Rightarrow> pystate \<Rightarrow> pystate" where
  "set_item a j v s = s\<lparr>list_heap := (list_heap s)[a := (get_list s a)[j := v]]\<rparr>"

text \<open>Lines 206 and 207: the loop over the indices of the list object \<open>a\<close>.\<close>

definition replace_in_place :: "nat \<Rightarrow> string \<Rightarrow> string \<Rightarrow> pystate \<Rightarrow> pystate" where
  "replace_in_place a old_span new_span s =
     fold (\<lambda>j s'. set_item a j (py_replace (get_list s' a ! j) old_span new_span) s')
       [0 ..< length (get_list s a)] s"

fun replace_new_spans_st ::
  "string set \<Rightarrow> string list \<Rightarrow> nat \<Rightarrow> (nat \<times> string) list \<Rightarrow> pystate
     \<Rightarrow> (error + unit) \<times> pystate" where
  "replace_new_spans_st gold_spans predicted_spans a [] s = (Inr (), s)"
| "replace_new_spans_st gold_spans predicted_spans a ((i, new_span) # rest) s =
     (if length predicted_spans \<le> i then (Inl IndexError, s)
      else
        (let old_span = predicted_spans ! i
         in if old_span \<notin> gold_spans \<and> new_span \<in> gold_spans then
              replace_new_spans_st gold_spans predicted_spans a rest
                (replace_in_place a old_span new_span s)
            else replace_new_spans_st gold_spans predicted_spans a rest s))"

definition eds_triples_st :: "MrsGraph \<Rightarrow> config \<Rightarrow> pystate \<Rightarrow> (error + nat) \<times> pystate" where
  "eds_triples_st g cfg s =
     (case eds_triples g cfg of
        Inl e \<Rightarrow> (Inl e, s)
      | Inr triples \<Rightarrow> (case new_list triples s of (a, s') \<Rightarrow> (Inr a, s')))"

text \<open>Lines 184 to 194: the list objects of the gold and of the predicted triples of an
  item. \<^verbatim>\<open>predicted_triples = []\<close> and \<^verbatim>\<open>gold_triples = []\<close> bind the names to new empty lists.\<close>

definition item_triples_st ::
  "config \<Rightarrow> int \<times> MrsGraph \<Rightarrow> pystate \<Rightarrow> (error + (nat \<times> nat)) \<times> pystate" where
  "item_triples_st cfg item s =
     (case eds_triples_st (snd item) cfg s of
        (Inl e, s1) \<Rightarrow> (Inl e, s1)
      | (Inr ga, s1) \<Rightarrow>
          (case predicted_corpus s1 (fst item) of
             Some pg \<Rightarrow>
               (case eds_triples_st pg cfg s1 of
                  (Inl e, s2) \<Rightarrow> (Inl e, s2)
                | (Inr pa, s2) \<Rightarrow> (Inr (ga, pa), s2))
           | None \<Rightarrow>
               (case new_list [] s1 of
                  (pa, s2) \<Rightarrow>
                    (if score_nones cfg then (Inr (ga, pa), s2)
                     else (case new_list [] s2 of (ga', s3) \<Rightarrow> (Inr (ga', pa), s3))))))"

text \<open>Lines 199 to 212 on the list objects \<open>ga\<close> and \<open>pa\<close>.\<close>

definition reconcile_st ::
  "(string list \<Rightarrow> string list) \<Rightarrow> nat \<Rightarrow> nat \<Rightarrow> pystate \<Rightarrow> (error + unit) \<times> pystate" where
  "reconcile_st set_list ga pa s =
     (let gold_spans = set (list_spans set_list (get_list s ga));
          predicted_spans = list_spans set_list (get_list s pa)
      in case inc_end_spans predicted_spans of
           Inl e \<Rightarrow> (Inl e, s)
         | Inr new1 \<Rightarrow>
             (case replace_new_spans_st gold_spans predicted_spans pa (enumerate 0 new1) s of
                (Inl e, s1) \<Rightarrow> (Inl e, s1)
              | (Inr u, s1) \<Rightarrow>
                  (case dec_end_spans predicted_spans of
                     Inl e \<Rightarrow> (Inl e, s1)
                   | Inr new2 \<Rightarrow>
                       replace_new_spans_st gold_spans predicted_spans pa (enumerate 0 new2)
                         s1)))"

definition score_item_st ::
  "(string list \<Rightarrow> string list) \<Rightarrow> config \<Rightarrow> int \<times> MrsGraph \<Rightarrow> pystate
     \<Rightarrow> (error + (nat \<times> nat \<times> nat)) \<times> pystate" where
  "score_item_st set_list cfg item s =
     (case item_triples_st cfg item s of
        (Inl e, s1) \<Rightarrow> (Inl e, s1)
      | (Inr (ga, pa), s1) \<Rightarrow>
          (case reconcile_st set_list ga pa s1 of
             (Inl e, s2) \<Rightarrow> (Inl e, s2)
           | (Inr u, s2) \<Rightarrow>
               (let gold_set = set (get_list s2 ga);
                    predicted_set = set (get_list s2 pa);
                    correct_triples = gold_set \<inter> predicted_set
                in (Inr (card gold_set, card predicted_set, card correct_triples), s2))))"

fun score_items_st ::
  "(string list \<Rightarrow> string list) \<Rightarrow> config \<Rightarrow> (int \<times> MrsGraph) list \<Rightarrow> nat \<times> nat \<times> nat
     \<Rightarrow> pystate \<Rightarrow> (error + (nat \<times> nat \<times> nat)) \<times> pystate" where
  "score_items_st set_list cfg [] totals s = (Inr totals, s)"
| "score_items_st set_list cfg (item # rest) (total_gold, total_predicted, total_correct) s =
     (case score_item_st set_list cfg item s of
        (Inl e, s1) \<Rightarrow> (Inl e, s1)
      | (Inr (g, p, c), s1) \<Rightarrow>
          score_items_st set_list cfg rest
            (total_gold + g, total_predicted + p, total_correct + c) s1)"

definition compute_f1_st ::
  "(string list \<Rightarrow> string list) \<Rightarrow> config \<Rightarrow> pystate
     \<Rightarrow> (error + (rat \<times> rat \<times> rat)) \<times> pystate" where
  "compute_f1_st set_list cfg s =
     (case score_items_st set_list cfg (gold_corpus s) (0, 0, 0) s of
        (Inl e, s1) \<Rightarrow> (Inl e, s1)
      | (Inr totals, s1) \<Rightarrow> (final_scores totals, s1))"

text \<open>A sequence of scorer calls, one for each configuration, on the same state (a caller
  that goes on after an exception).\<close>

fun scorer_calls ::
  "(string list \<Rightarrow> string list) \<Rightarrow> config list \<Rightarrow> pystate
     \<Rightarrow> (error + (rat \<times> rat \<times> rat)) list \<times> pystate" where
  "scorer_calls set_list [] s = ([], s)"
| "scorer_calls set_list (cfg # cfgs) s =
     (case compute_f1_st set_list cfg s of
        (r, s1) \<Rightarrow> (case scorer_calls set_list cfgs s1 of (rs, s2) \<Rightarrow> (r # rs, s2)))"

text \<open>What a call may do to the state: the corpora stay, and so does every list object
  that existed before; new list objects may have been added.\<close>

definition extends :: "pystate \<Rightarrow> pystate \<Rightarrow> bool" where
  "extends s s' =
     (gold_corpus s' = gold_corpus s \<and> predicted_corpus s' = predicted_corpus s \<and>
      length (list_heap s) \<le> length (list_heap s') \<and>
      take (length (list_heap s)) (list_heap s') = list_heap s)"

text \<open>What the specification says construction stores for the constant of a node record.\<close>

definition stored_constant :: "json_node \<Rightarrow> string" where
  "stored_constant j =
     (case constant_prop j of
        None \<Rightarrow> []
      | Some c \<Rightarrow> (if hd c = dquote then [] else [dquote]) @ c @
                   (if last c = dquote then [] else [dquote]))"

text \<open>Graphs whose strings cannot be mistaken for more than one field of a triple: the
  relation labels have no space when they are written into the triples, and neither have
  the concepts and constants when they are emitted as a bag without spans.\<close>

definition space_free :: "config \<Rightarrow> MrsGraph \<Rightarrow> bool" where
  "space_free cfg g =
     (\<forall>node \<in> set (nodes g).
        (labeled cfg \<longrightarrow> (\<forall>r \<in> set (relations node). CHR '' '' \<notin> set r)) \<and>
        (\<not> include_predicate_spans cfg \<longrightarrow>
           CHR '' '' \<notin> set (concept node) \<and> CHR '' '' \<notin> set (constant_val node)))"

subsection \<open>The edge triples field by field\<close>

text \<open>The test of lines 148-149 on an edge with label \<open>r\<close> from \<open>node\<close> to \<open>child_node\<close>.\<close>

definition eq_swap :: "MrsNode \<Rightarrow> MrsNode \<Rightarrow> string \<Rightarrow> bool" where
  "eq_swap node child_node r =
     (r = ''/EQ'' \<and>
      (start node > start child_node \<or>
       (start node = start child_node \<and> endpos node > endpos child_node)))"

text \<open>The inner loop of \<^verbatim>\<open>relation_triples\<close> again, keeping for each edge the three pieces that
  line 153 joins (first end, label of the edge, second end) and leaving out the indexing
  errors; \<open>ise\<close> is \<^verbatim>\<open>include_span_ends\<close> and \<open>node_ind\<close> the value of the variable
  \<^verbatim>\<open>node_ind\<close> when the edge is reached.\<close>

fun edge_fields ::
  "MrsNode list \<Rightarrow> bool \<Rightarrow> MrsNode \<Rightarrow> (nat \<times> nat) list \<Rightarrow> string
     \<Rightarrow> (string \<times> string \<times> string) list" where
  "edge_fields ns ise node [] node_ind = []"
| "edge_fields ns ise node ((k, child_index) # rest) node_ind =
     (let child_node = ns ! child_index;
          child_ind = span_str child_node ise;
          swap = eq_swap node child_node (relations node ! k);
          node_ind' = (if swap then child_ind else node_ind);
          child_ind' = (if swap then node_ind else child_ind)
      in (node_ind', relations node ! k, child_ind')
         # edge_fields ns ise node rest node_ind')"

text \<open>Lines 151-153: the triple of an edge from its three pieces.\<close>

definition edge_triple :: "bool \<Rightarrow> string \<times> string \<times> string \<Rightarrow> string" where
  "edge_triple lbl f =
     (case f of (node_ind, r, child_ind) \<Rightarrow>
        (let rel = (if lbl then r else ''REL'');
             rel' = (if rel = ''/EQ'' then ''/EQ/U'' else rel)
         in node_ind @ '' '' @ rel' @ '' '' @ child_ind))"

text \<open>What the edges of one node contribute, edge by edge: \<open>seg\<close> has one entry (first end,
  label, second end) for each edge of \<open>node\<close>, in the order of the edges. The two ends of
  the entry of edge \<open>k\<close> are the span of the child and the span string the loop holds for
  the node at that edge (the span of the node at its first edge, afterwards the first end
  of the entry before), child first exactly when the test of the swap holds.\<close>

definition node_edge_fields ::
  "MrsNode list \<Rightarrow> bool \<Rightarrow> MrsNode \<Rightarrow> (string \<times> string \<times> string) list \<Rightarrow> bool" where
  "node_edge_fields ns ise node seg =
     (length seg = length (edges node) \<and>
      (\<forall>k \<in> set [0..<length (edges node)].
         seg ! k =
           (let child_node = ns ! (edges node ! k);
                r = relations node ! k;
                held = (if k = 0 then span_str node ise else fst (seg ! (k - 1)))
            in if eq_swap node child_node r
               then (span_str child_node ise, r, held)
               else (held, r, span_str child_node ise))))"

declare str_nat.simps [simp del] py_replace_ne.simps [simp del]

section \<open>Example inputs\<close>

text \<open>A record whose only edge points to the node id 5, which no node has.\<close>

definition bad_target_record :: json_mrs where
  "bad_target_record =
     \<lparr>mrs_id = 7, mrs_nodes =
        [\<lparr>node_id = 1, predicate = ''_run_v_1'', constant_prop = None, node_start = 0,
           node_end = 3, node_top = Some True,
           node_edges = Some [\<lparr>target = 5, label = ''ARG1/NEQ''\<rparr>]\<rparr>]\<rparr>"

text \<open>A record whose node supplies the empty string as its constant.\<close>

definition empty_constant_record :: json_mrs where
  "empty_constant_record =
     \<lparr>mrs_id = 1, mrs_nodes =
        [\<lparr>node_id = 1, predicate = ''named'', constant_prop = Some [], node_start = 0,
           node_end = 1, node_top = None, node_edges = None\<rparr>]\<rparr>"

text \<open>The configuration of the first call of the main program ("Full EDM").\<close>

definition full_config :: config where
  "full_config =
     \<lparr>score_predicates = True, score_relations = True, include_constants = True,
      labeled = True, include_span_ends = True, include_predicate_spans = True,
      score_nones = True\<rparr>"

text \<open>A record with one node of span 0:1, and the graph built from it.\<close>

definition one_node_record :: "string \<Rightarrow> json_mrs" where
  "one_node_record p =
     \<lparr>mrs_id = 1, mrs_nodes =
        [\<lparr>node_id = 1, predicate = p, constant_prop = None, node_start = 0,
           node_end = 1, node_top = None, node_edges = None\<rparr>]\<rparr>"

definition one_node_graph :: "string \<Rightarrow> MrsGraph" where
  "one_node_graph p = \<lparr>nodes = [MrsNode_init ''0'' p 0 1], parse_id = 1\<rparr>"

text \<open>Three nodes A (span 5:6), B (3:4) and C (1:2). In the first record A has the two
  equality edges A-C and A-B, in this order; the second record is the same but for the
  edge between A and B, which is given from B to A. The graphs are what construction
  returns for them.\<close>

definition eq_forward_record :: json_mrs where
  "eq_forward_record =
     \<lparr>mrs_id = 1, mrs_nodes =
        [\<lparr>node_id = 1, predicate = ''a'', constant_prop = None, node_start = 5, node_end = 6,
           node_top = Some True,
           node_edges = Some [\<lparr>target = 3, label = ''/EQ''\<rparr>, \<lparr>target = 2, label = ''/EQ''\<rparr>]\<rparr>,
         \<lparr>node_id = 2, predicate = ''b'', constant_prop = None, node_start = 3, node_end = 4,
           node_top = None, node_edges = None\<rparr>,
         \<lparr>node_id = 3, predicate = ''c'', constant_prop = None, node_start = 1, node_end = 2,
           node_top = None, node_edges = None\<rparr>]\<rparr>"

definition eq_reversed_record :: json_mrs where
  "eq_reversed_record =
     \<lparr>mrs_id = 1, mrs_nodes =
        [\<lparr>node_id = 1, predicate = ''a'', constant_prop = None, node_start = 5, node_end = 6,
           node_top = Some True,
           node_edges = Some [\<lparr>target = 3, label = ''/EQ''\<rparr>]\<rparr>,
         \<lparr>node_id = 2, predicate = ''b'', constant_prop = None, node_start = 3, node_end = 4,
           node_top = None, node_edges = Some [\<lparr>target = 1, label = ''/EQ''\<rparr>]\<rparr>,
         \<lparr>node_id = 3, predicate = ''c'', constant_prop = None, node_start = 1, node_end = 2,
           node_top = None, node_edges = None\<rparr>]\<rparr>"

definition eq_forward_graph :: MrsGraph where
  "eq_forward_graph =
     \<lparr>nodes =
        [\<lparr>name = ''0'', concept = ''a'', start = 5, endpos = 6, constant_val = [],
           top_flag = True, edges = [2, 1], relations = [''/EQ'', ''/EQ'']\<rparr>,
         \<lparr>name = ''1'', concept = ''b'', start = 3, endpos = 4, constant_val = [],
           top_flag = False, edges = [], relations = []\<rparr>,
         \<lparr>name = ''2'', concept = ''c'', start = 1, endpos = 2, constant_val = [],
           top_flag = False, edges = [], relations = []\<rparr>],
      parse_id = 1\<rparr>"

definition eq_reversed_graph :: MrsGraph where
  "eq_reversed_graph =
     \<lparr>nodes =
        [\<lparr>name = ''0'', concept = ''a'', start = 5, endpos = 6, constant_val = [],
           top_flag = True, edges = [2], relations = [''/EQ'']\<rparr>,
         \<lparr>name = ''1'', concept = ''b'', start = 3, endpos = 4, constant_val = [],
           top_flag = False, edges = [0], relations = [''/EQ'']\<rparr>,
         \<lparr>name = ''2'', concept = ''c'', start = 1, endpos = 2, constant_val = [],
           top_flag = False, edges = [], relations = []\<rparr>],
      parse_id = 1\<rparr>"


text \<open>The configuration "Full EDM, start spans only", a gold graph with an edge whose
  label contains a space followed by something that reads as a span, and a predicted graph
  with one node that starts at 7.\<close>

definition start_config :: config where
  "start_config = full_config\<lparr>include_span_ends := False\<rparr>"

definition span_label_graph :: MrsGraph where
  "span_label_graph =
     \<lparr>nodes =
        [\<lparr>name = ''0'', concept = ''a'', start = 0, endpos = 1, constant_val = [],
           top_flag = False, edges = [1], relations = [''x 7:8'']\<rparr>,
         \<lparr>name = ''1'', concept = ''b'', start = 2, endpos = 3, constant_val = [],
           top_flag = False, edges = [], relations = []\<rparr>],
      parse_id = 1\<rparr>"

definition start_seven_graph :: MrsGraph where
  "start_seven_graph =
     \<lparr>nodes =
        [\<lparr>name = ''0'', concept = ''p'', start = 7, endpos = 9, constant_val = [],
           top_flag = False, edges = [], relations = []\<rparr>],
      parse_id = 1\<rparr>"


section \<open>Properties of the Python primitives\<close>

lemma py_split_nonempty: "py_split sep s \<noteq> []"
  by (induction s) (auto split: list.splits)

lemma py_split_notin: "sep \<notin> set a \<Longrightarrow> py_split sep a = [a]"
  by (induction a) auto

lemma py_split_append: "sep \<notin> set a \<Longrightarrow> py_split sep (a @ sep # b) = a # py_split sep b"
  by (induction a) auto

lemma digit_val_digit_chr: "d < 10 \<Longrightarrow> digit_val (digit_chr d) = Some d"
proof -
  assume "d < 10"
  then have "d = 0 \<or> d = 1 \<or> d = 2 \<or> d = 3 \<or> d = 4 \<or> d = 5 \<or> d = 6 \<or> d = 7 \<or> d = 8 \<or> d = 9"
    by arith
  then show ?thesis
    by (elim disjE) (simp_all add: digit_val_def digit_chr_def upt_rec)
qed

lemma digit_val_others:
  "digit_val CHR '' '' = None" "digit_val CHR '':'' = None" "digit_val CHR ''-'' = None"
  "digit_val CHR ''+'' = None" "digit_val CHR ''_'' = None"
  "digit_val CHR 0x09 = None" "digit_val CHR 0x0A = None" "digit_val CHR 0x0B = None"
  "digit_val CHR 0x0C = None" "digit_val CHR 0x0D = None"
  by (simp_all add: digit_val_def upt_rec)

lemma str_nat_digits: "c \<in> set (str_nat n) \<Longrightarrow> digit_val c \<noteq> None"
proof (induction n rule: str_nat.induct)
  case (1 n)
  show ?case
  proof (cases "n < 10")
    case True
    with 1(2) have "c = digit_chr n" by (subst (asm) str_nat.simps) simp
    with True show ?thesis by (simp add: digit_val_digit_chr)
  next
    case False
    with 1(2) have "c \<in> set (str_nat (n div 10)) \<or> c = digit_chr (n mod 10)"
      by (subst (asm) str_nat.simps) auto
    then show ?thesis
    proof
      assume "c \<in> set (str_nat (n div 10))"
      with 1(1)[OF False] show ?thesis .
    next
      assume "c = digit_chr (n mod 10)"
      then show ?thesis by (simp add: digit_val_digit_chr)
    qed
  qed
qed

lemma str_nat_nonempty: "str_nat n \<noteq> []"
  by (subst str_nat.simps) simp

lemma str_int_chars: "c \<in> set (str_int i) \<Longrightarrow> c = CHR ''-'' \<or> digit_val c \<noteq> None"
  by (auto simp: str_int_def dest: str_nat_digits split: if_splits)

lemma str_int_no_space [simp]: "CHR '' '' \<notin> set (str_int i)"
  using str_int_chars[of "CHR '' ''" i] by (auto simp: digit_val_others)

lemma str_int_no_colon [simp]: "CHR '':'' \<notin> set (str_int i)"
  using str_int_chars[of "CHR '':''" i] by (auto simp: digit_val_others)

lemma span_str_no_space [simp]: "CHR '' '' \<notin> set (span_str node ise)"
  by (simp add: span_str_def)

lemma parse_digits_snoc:
  "\<forall>x \<in> set ds. digit_val x \<noteq> None \<Longrightarrow> digit_val c = Some d \<Longrightarrow>
   \<exists>v. parse_digits acc ds = Some v \<and> parse_digits acc (ds @ [c]) = Some (10 * v + d)"
proof (induction acc ds rule: parse_digits.induct)
  case (1 acc)
  then show ?case by simp
next
  case (2 acc x)
  then show ?case by auto
next
  case (3 acc x y cs)
  from 3(3) obtain dx where dx: "digit_val x = Some dx" by auto
  from 3(3) have "\<forall>x \<in> set (y # cs). digit_val x \<noteq> None" by simp
  from 3(2)[OF dx this 3(4)] dx show ?case by simp
qed

lemma parse_decimal_str_nat: "parse_decimal (str_nat n) = Some n"
proof (induction n rule: str_nat.induct)
  case (1 n)
  show ?case
  proof (cases "n < 10")
    case True
    then show ?thesis
      by (subst str_nat.simps) (simp add: parse_decimal_def digit_val_digit_chr)
  next
    case False
    let ?ds = "str_nat (n div 10)"
    obtain x xs where ds: "?ds = x # xs" using str_nat_nonempty[of "n div 10"] by (cases ?ds) auto
    have alld: "\<forall>c \<in> set ?ds. digit_val c \<noteq> None" using str_nat_digits by blast
    then obtain dx where dx: "digit_val x = Some dx" using ds by auto
    have last: "digit_val (digit_chr (n mod 10)) = Some (n mod 10)"
      by (simp add: digit_val_digit_chr)
    from alld ds have "\<forall>c \<in> set xs. digit_val c \<noteq> None" by simp
    from parse_digits_snoc[OF this last, of dx] obtain v where
      v: "parse_digits dx xs = Some v"
      and v': "parse_digits dx (xs @ [digit_chr (n mod 10)]) = Some (10 * v + n mod 10)" by blast
    from 1[OF False] ds dx v have "v = n div 10" by (simp add: parse_decimal_def)
    with v' ds dx False show ?thesis
      by (subst str_nat.simps) (simp add: parse_decimal_def)
  qed
qed

lemma py_strip_id: "\<forall>c \<in> set s. \<not> is_space c \<Longrightarrow> py_strip s = s"
proof -
  assume a: "\<forall>c \<in> set s. \<not> is_space c"
  have d: "\<And>xs. \<forall>c \<in> set xs. \<not> is_space c \<Longrightarrow> dropWhile is_space xs = xs"
    by (metis dropWhile_eq_self_iff list.set_sel(1))
  from a have "dropWhile is_space s = s" by (rule d)
  moreover from a have "dropWhile is_space (rev s) = rev s" by (intro d) simp
  ultimately show ?thesis by (simp add: py_strip_def)
qed

lemma str_int_no_is_space: "\<forall>c \<in> set (str_int i). \<not> is_space c"
proof
  fix c assume "c \<in> set (str_int i)"
  from str_int_chars[OF this] show "\<not> is_space c"
    by (auto simp: is_space_def digit_val_others)
qed

lemma py_int_str_int [simp]: "py_int (str_int i) = Inr i"
proof (cases "i < 0")
  case True
  then show ?thesis
    using py_strip_id[OF str_int_no_is_space[of i]]
    by (simp add: py_int_def str_int_def parse_decimal_str_nat)
next
  case False
  obtain x xs where ds: "str_nat (nat i) = x # xs"
    using str_nat_nonempty[of "nat i"] by (cases "str_nat (nat i)") auto
  then have "digit_val x \<noteq> None" using str_nat_digits[of x "nat i"] by simp
  then have "x \<noteq> CHR ''-''" "x \<noteq> CHR ''+''" by (auto simp: digit_val_others)
  moreover have "parse_decimal (x # xs) = Some (nat i)" using parse_decimal_str_nat[of "nat i"] ds by simp
  moreover have "py_strip (x # xs) = x # xs"
    using py_strip_id[OF str_int_no_is_space[of i]] False ds by (simp add: str_int_def)
  ultimately show ?thesis using False ds
    by (simp add: py_int_def str_int_def)
qed

lemma str_int_inj: "str_int a = str_int b \<Longrightarrow> a = b"
proof -
  assume "str_int a = str_int b"
  then have "py_int (str_int a) = py_int (str_int b)" by simp
  then show ?thesis by simp
qed

lemma py_split_span: "py_split CHR '':'' (str_int a @ '':'' @ str_int b) = [str_int a, str_int b]"
  by (simp add: py_split_append py_split_notin)

lemma span_eq: "str_int a @ '':'' @ str_int b = str_int c @ '':'' @ str_int d \<Longrightarrow> a = c \<and> b = d"
proof -
  assume "str_int a @ '':'' @ str_int b = str_int c @ '':'' @ str_int d"
  then have "py_split CHR '':'' (str_int a @ '':'' @ str_int b)
           = py_split CHR '':'' (str_int c @ '':'' @ str_int d)" by (rule arg_cong)
  then have "[str_int a, str_int b] = [str_int c, str_int d]" by (simp only: py_split_span)
  then show ?thesis by (auto dest: str_int_inj)
qed

lemma shift_end_span:
  "shift_end d (str_int a @ '':'' @ str_int b) = Inr (str_int a @ '':'' @ str_int (b + d))"
proof -
  have "py_split CHR '':'' (str_int a @ '':'' @ str_int b) = [str_int a, str_int b]"
    by (rule py_split_span)
  then show ?thesis unfolding shift_end_def Let_def by simp
qed

section \<open>Properties of graph construction\<close>

lemma parse_nodes_dom:
  "parse_nodes js acc idx = Inr (ns, idx') \<Longrightarrow> dom idx' = dom idx \<union> (\<lambda>n. node_id n - 1) ` set js"
proof (induction js arbitrary: acc idx)
  case Nil
  then show ?case by simp
next
  case (Cons j js)
  from Cons.prems obtain acc1 where
    "parse_nodes js acc1 (idx(node_id j - 1 \<mapsto> length acc)) = Inr (ns, idx')"
    by (auto simp: Let_def split: sum.splits option.splits)
  from Cons.IH[OF this] show ?case by auto
qed

lemma parse_nodes_error: "parse_nodes js acc idx = Inl e \<Longrightarrow> e = IndexError"
proof (induction js arbitrary: acc idx)
  case Nil
  then show ?case by simp
next
  case (Cons j js)
  then show ?case
    by (auto simp: Let_def quote_constant_def split: sum.splits option.splits list.splits)
qed

lemma add_edges_targets:
  "add_edges idx p es acc = Inr acc' \<Longrightarrow> e \<in> set es \<Longrightarrow> target e - 1 \<in> dom idx"
  by (induction es arbitrary: acc) (auto split: option.splits if_splits)

lemma add_edges_error:
  "add_edges idx p es acc = Inl e \<Longrightarrow> e = KeyError \<or> e = IndexError"
  by (induction es arbitrary: acc) (auto split: option.splits if_splits)

lemma parse_edges_targets:
  "parse_edges idx js acc = Inr acc' \<Longrightarrow> j \<in> set js \<Longrightarrow> node_edges j = Some es \<Longrightarrow>
   e \<in> set es \<Longrightarrow> target e - 1 \<in> dom idx"
proof (induction js arbitrary: acc)
  case Nil
  then show ?case by simp
next
  case (Cons a js)
  then show ?case
    by (auto split: option.splits sum.splits dest: add_edges_targets)
qed

lemma parse_edges_error:
  "parse_edges idx js acc = Inl e \<Longrightarrow> e = KeyError \<or> e = IndexError"
proof (induction js arbitrary: acc)
  case Nil
  then show ?case by simp
next
  case (Cons a js)
  then show ?case
    by (auto split: option.splits sum.splits dest: add_edges_error)
qed

lemma parse_orig_json_line_error:
  "parse_orig_json_line mrs = Inl e \<Longrightarrow> e = KeyError \<or> e = IndexError"
  by (auto simp: parse_orig_json_line_def split: sum.splits
      dest: parse_nodes_error parse_edges_error)

text \<open>
  Claim C5. A record with an edge whose target id is the id of no node of the record is not
  turned into a graph: construction ends with an exception, the KeyError of the lookup in
  \<^verbatim>\<open>nodes_index\<close> (or the IndexError of an empty constant met before it). No graph is
  returned, so the edge is neither dropped nor given another target.
\<close>

theorem unknown_target_fails:
  assumes "node \<in> set (mrs_nodes mrs)" and "node_edges node = Some es" and "edge \<in> set es"
    and "target edge \<notin> node_id ` set (mrs_nodes mrs)"
  shows "parse_orig_json_line mrs = Inl KeyError \<or> parse_orig_json_line mrs = Inl IndexError"
proof (cases "parse_orig_json_line mrs")
  case (Inl e)
  then show ?thesis using parse_orig_json_line_error by blast
next
  case (Inr g)
  then obtain ns idx ns' where pn: "parse_nodes (mrs_nodes mrs) [] Map.empty = Inr (ns, idx)"
    and pe: "parse_edges idx (mrs_nodes mrs) ns = Inr ns'"
    by (auto simp: parse_orig_json_line_def split: sum.splits)
  from parse_edges_targets[OF pe assms(1,2,3)] have "target edge - 1 \<in> dom idx" .
  with parse_nodes_dom[OF pn] obtain n
    where "n \<in> set (mrs_nodes mrs)" "target edge - 1 = node_id n - 1"
    by auto
  then have "target edge \<in> node_id ` set (mrs_nodes mrs)" by auto
  with assms(4) show ?thesis by simp
qed

theorem unknown_target_fails_witness:
  "hd (mrs_nodes bad_target_record) \<in> set (mrs_nodes bad_target_record)
   \<and> node_edges (hd (mrs_nodes bad_target_record)) = Some [\<lparr>target = 5, label = ''ARG1/NEQ''\<rparr>]
   \<and> target \<lparr>target = 5, label = ''ARG1/NEQ''\<rparr> \<notin> node_id ` set (mrs_nodes bad_target_record)
   \<and> parse_orig_json_line bad_target_record = Inl KeyError"
  using unknown_target_fails [of "hd (mrs_nodes bad_target_record)" bad_target_record
        "[\<lparr>target = 5, label = ''ARG1/NEQ''\<rparr>]" "\<lparr>target = 5, label = ''ARG1/NEQ''\<rparr>"]
  by (simp add: bad_target_record_def parse_orig_json_line_def MrsNode_init_def)

text \<open>What construction stores for a constant that is not the empty string: the value with
  a quote character in front unless it starts with one, and one at the end unless it then
  ends with one.\<close>

lemma quote_constant_nonempty:
  "const \<noteq> [] \<Longrightarrow>
   \<exists>c. quote_constant const = Inr c \<and> hd c = dquote \<and> last c = dquote \<and>
     c = (if hd const = dquote then [] else [dquote]) @ const @
         (if last const = dquote then [] else [dquote])"
  by (cases const) (auto simp: quote_constant_def Let_def)

text \<open>
  Claim C6. The claim promises a quoted constant for every node record that supplies one.
  For the record whose constant is the empty string the code reads \<^verbatim>\<open>const[0]\<close> and
  construction ends with IndexError: nothing is stored.
\<close>

theorem empty_constant_raises:
  "parse_orig_json_line empty_constant_record = Inl IndexError"
  by (simp add: empty_constant_record_def parse_orig_json_line_def quote_constant_def)

lemma parse_nodes_inv:
  "parse_nodes js acc idx = Inr (ns, idx') \<Longrightarrow>
   \<forall>n \<in> set acc. edges n = [] \<and> relations n = [] \<Longrightarrow>
   \<forall>k v. idx k = Some v \<longrightarrow> v < length acc \<Longrightarrow>
   (\<forall>n \<in> set ns. edges n = [] \<and> relations n = []) \<and> (\<forall>k v. idx' k = Some v \<longrightarrow> v < length ns)"
proof (induction js arbitrary: acc idx)
  case Nil
  then show ?case by simp
next
  case (Cons j js)
  from Cons.prems(1) obtain gn where
    rec: "parse_nodes js (acc @ [gn]) (idx(node_id j - 1 \<mapsto> length acc)) = Inr (ns, idx')"
    and gn: "edges gn = [] \<and> relations gn = []"
    by (auto simp: Let_def MrsNode_init_def split: sum.splits option.splits if_splits)
  have a: "\<forall>n \<in> set (acc @ [gn]). edges n = [] \<and> relations n = []"
    using Cons.prems(2) gn by auto
  have b: "\<forall>k v. (idx(node_id j - 1 \<mapsto> length acc)) k = Some v \<longrightarrow> v < length (acc @ [gn])"
    using Cons.prems(3) by (auto simp: less_Suc_eq)
  from Cons.IH[OF rec a b] show ?case .
qed

lemma add_edges_inv:
  "add_edges idx p es acc = Inr acc' \<Longrightarrow>
   \<forall>k v. idx k = Some v \<longrightarrow> v < L \<Longrightarrow>
   \<forall>n \<in> set acc. length (relations n) = length (edges n) \<and> (\<forall>c \<in> set (edges n). c < L) \<Longrightarrow>
   length acc' = length acc \<and>
   (\<forall>n \<in> set acc'. length (relations n) = length (edges n) \<and> (\<forall>c \<in> set (edges n). c < L))"
proof (induction es arbitrary: acc)
  case Nil
  then show ?case by simp
next
  case (Cons e es)
  from Cons.prems(1) obtain child where c: "idx (target e - 1) = Some child" and p: "p < length acc"
    and rec: "add_edges idx p es (acc[p := append_edge (acc ! p) child (label e)]) = Inr acc'"
    by (auto split: option.splits if_splits)
  let ?acc1 = "acc[p := append_edge (acc ! p) child (label e)]"
  from c Cons.prems(2) have cl: "child < L" by blast
  have "\<forall>n \<in> set ?acc1. length (relations n) = length (edges n) \<and> (\<forall>c \<in> set (edges n). c < L)"
  proof
    fix n assume "n \<in> set ?acc1"
    then have "n = append_edge (acc ! p) child (label e) \<or> n \<in> set acc"
      using set_update_subset_insert[of acc p] by blast
    then show "length (relations n) = length (edges n) \<and> (\<forall>c \<in> set (edges n). c < L)"
      using Cons.prems(3) cl nth_mem[OF p] by (auto simp: append_edge_def)
  qed
  from Cons.IH[OF rec Cons.prems(2) this] show ?case by simp
qed

lemma parse_edges_inv:
  "parse_edges idx js acc = Inr acc' \<Longrightarrow>
   \<forall>k v. idx k = Some v \<longrightarrow> v < L \<Longrightarrow>
   \<forall>n \<in> set acc. length (relations n) = length (edges n) \<and> (\<forall>c \<in> set (edges n). c < L) \<Longrightarrow>
   length acc' = length acc \<and>
   (\<forall>n \<in> set acc'. length (relations n) = length (edges n) \<and> (\<forall>c \<in> set (edges n). c < L))"
proof (induction js arbitrary: acc)
  case Nil
  then show ?case by simp
next
  case (Cons j js)
  show ?case
  proof (cases "node_edges j")
    case None
    with Cons.prems(1) have "parse_edges idx js acc = Inr acc'" by (auto split: option.splits)
    from Cons.IH[OF this Cons.prems(2,3)] show ?thesis .
  next
    case (Some es)
    with Cons.prems(1) obtain p acc1 where ae: "add_edges idx p es acc = Inr acc1"
      and rec: "parse_edges idx js acc1 = Inr acc'"
      by (auto split: option.splits sum.splits)
    from add_edges_inv[OF ae Cons.prems(2,3)] have l: "length acc1 = length acc"
      and i: "\<forall>n \<in> set acc1. length (relations n) = length (edges n) \<and> (\<forall>c \<in> set (edges n). c < L)"
      by auto
    from Cons.IH[OF rec Cons.prems(2) i] l show ?thesis by simp
  qed
qed

text \<open>Every graph that construction returns is well formed.\<close>

lemma parse_orig_json_line_wf: "parse_orig_json_line mrs = Inr g \<Longrightarrow> wf_graph g"
proof -
  assume "parse_orig_json_line mrs = Inr g"
  then obtain ns idx where pn: "parse_nodes (mrs_nodes mrs) [] Map.empty = Inr (ns, idx)"
    and pe: "parse_edges idx (mrs_nodes mrs) ns = Inr (nodes g)"
    by (auto simp: parse_orig_json_line_def split: sum.splits)
  from parse_nodes_inv[OF pn] have e: "\<forall>n \<in> set ns. edges n = [] \<and> relations n = []"
    and i: "\<forall>k v. idx k = Some v \<longrightarrow> v < length ns" by auto
  from e have "\<forall>n \<in> set ns. length (relations n) = length (edges n) \<and> (\<forall>c \<in> set (edges n). c < length ns)"
    by simp
  from parse_edges_inv[OF pe i this] show ?thesis by (simp add: wf_graph_def)
qed


lemma parse_nodes_constants:
  "parse_nodes js acc idx = Inr (ns, idx') \<Longrightarrow>
   map constant_val ns = map constant_val acc @ map stored_constant js \<and>
   (\<forall>j \<in> set js. constant_prop j \<noteq> Some [])"
proof (induction js arbitrary: acc idx)
  case Nil
  then show ?case by simp
next
  case (Cons j js)
  from Cons.prems obtain gn where
    rec: "parse_nodes js (acc @ [gn]) (idx(node_id j - 1 \<mapsto> length acc)) = Inr (ns, idx')"
    and gn: "constant_val gn = stored_constant j" and ne: "constant_prop j \<noteq> Some []"
    by (auto simp: Let_def MrsNode_init_def stored_constant_def quote_constant_def
        split: sum.splits option.splits if_splits list.splits)
  from Cons.IH[OF rec] gn ne show ?case by simp
qed

lemma add_edges_constants:
  "add_edges idx p es acc = Inr acc' \<Longrightarrow> map constant_val acc' = map constant_val acc"
proof (induction es arbitrary: acc)
  case Nil
  then show ?case by simp
next
  case (Cons e es)
  from Cons.prems obtain child where p: "p < length acc"
    and rec: "add_edges idx p es (acc[p := append_edge (acc ! p) child (label e)]) = Inr acc'"
    by (auto split: option.splits if_splits)
  have "map constant_val (acc[p := append_edge (acc ! p) child (label e)]) = map constant_val acc"
    using p by (simp add: map_update append_edge_def list_update_same_conv)
  with Cons.IH[OF rec] show ?case by simp
qed

lemma parse_edges_constants:
  "parse_edges idx js acc = Inr acc' \<Longrightarrow> map constant_val acc' = map constant_val acc"
proof (induction js arbitrary: acc)
  case Nil
  then show ?case by simp
next
  case (Cons j js)
  then show ?case
    by (auto split: option.splits sum.splits dest: add_edges_constants)
qed

text \<open>When construction returns a graph, every constant of the record is not empty and is
  stored with a quote character at both ends.\<close>

lemma parse_stores_constants:
  assumes "parse_orig_json_line mrs = Inr g"
  shows "map constant_val (nodes g) = map stored_constant (mrs_nodes mrs)
    \<and> (\<forall>j \<in> set (mrs_nodes mrs). \<forall>c. constant_prop j = Some c \<longrightarrow>
          c \<noteq> [] \<and> hd (stored_constant j) = dquote \<and> last (stored_constant j) = dquote)"
proof -
  from assms obtain ns idx where pn: "parse_nodes (mrs_nodes mrs) [] Map.empty = Inr (ns, idx)"
    and pe: "parse_edges idx (mrs_nodes mrs) ns = Inr (nodes g)"
    by (auto simp: parse_orig_json_line_def split: sum.splits)
  from parse_nodes_constants[OF pn] parse_edges_constants[OF pe]
  have m: "map constant_val (nodes g) = map stored_constant (mrs_nodes mrs)"
    and ne: "\<forall>j \<in> set (mrs_nodes mrs). constant_prop j \<noteq> Some []" by simp_all
  have "\<forall>j \<in> set (mrs_nodes mrs). \<forall>c. constant_prop j = Some c \<longrightarrow>
          c \<noteq> [] \<and> hd (stored_constant j) = dquote \<and> last (stored_constant j) = dquote"
  proof (intro ballI allI impI)
    fix j c assume j: "j \<in> set (mrs_nodes mrs)" and c: "constant_prop j = Some c"
    with ne have "c \<noteq> []" by auto
    with c show "c \<noteq> [] \<and> hd (stored_constant j) = dquote \<and> last (stored_constant j) = dquote"
      by (cases c) (auto simp: stored_constant_def)
  qed
  with m show ?thesis by blast
qed

section \<open>Properties of the scorer\<close>

lemma edge_triples_error:
  "edge_triples ns ise lbl node es ni ts = Inl e \<Longrightarrow> e = IndexError"
  by (induction ns ise lbl node es ni ts rule: edge_triples.induct)
     (auto simp: Let_def split: if_splits)

lemma node_edge_triples_error:
  "node_edge_triples ns ise lbl todo ts = Inl e \<Longrightarrow> e = IndexError"
  by (induction todo arbitrary: ts) (auto split: sum.splits dest: edge_triples_error)

lemma eds_triples_error: "eds_triples g cfg = Inl e \<Longrightarrow> e = IndexError"
  by (auto simp: eds_triples_def relation_triples_def Let_def split: if_splits sum.splits
      dest: node_edge_triples_error)

lemma py_int_error: "py_int s = Inl e \<Longrightarrow> e = ValueError"
  by (auto simp: py_int_def split: list.splits if_splits option.splits)

lemma shift_end_error: "shift_end d s = Inl e \<Longrightarrow> e = IndexError \<or> e = ValueError"
  by (auto simp: shift_end_def Let_def split: if_splits sum.splits dest: py_int_error)

lemma map_result_error: "map_result f xs = Inl e \<Longrightarrow> \<exists>x \<in> set xs. f x = Inl e"
  by (induction xs) (auto split: sum.splits)

lemma map_result_Inr: "map_result f xs = Inr ys \<Longrightarrow> map f xs = map Inr ys"
  by (induction xs arbitrary: ys) (auto split: sum.splits)

lemma map_result_length: "map_result f xs = Inr ys \<Longrightarrow> length ys = length xs"
  by (induction xs arbitrary: ys) (auto split: sum.splits)

lemma replace_new_spans_error:
  "replace_new_spans gs ps new ts = Inl e \<Longrightarrow> e = IndexError"
  by (induction gs ps new ts rule: replace_new_spans.induct) (auto simp: Let_def split: if_splits)

lemma reconcile_error: "reconcile sl gt pt = Inl e \<Longrightarrow> e = IndexError \<or> e = ValueError"
  by (auto simp: reconcile_def Let_def inc_end_spans_def dec_end_spans_def split: sum.splits
      dest!: map_result_error replace_new_spans_error dest: shift_end_error)

lemma score_item_error:
  "score_item sl pg cfg item = Inl e \<Longrightarrow> e = IndexError \<or> e = ValueError"
  by (auto simp: score_item_def item_triples_def Let_def split: sum.splits option.splits prod.splits
      dest: eds_triples_error reconcile_error)

lemma score_items_error:
  "score_items sl pg cfg items tot = Inl e \<Longrightarrow> e = IndexError \<or> e = ValueError"
proof (induction items arbitrary: tot)
  case Nil
  then show ?case by simp
next
  case (Cons item items)
  obtain a b c where tot: "tot = (a, b, c)" by (cases tot) auto
  from Cons show ?case unfolding tot
    by (auto split: sum.splits dest: score_item_error)
qed

text \<open>The totals are the sums of the counts of the items.\<close>

lemma score_items_totals:
  "score_items sl pg cfg items (a, b, c) = Inr (tg, tp, tc) \<Longrightarrow>
   \<exists>counts. map (score_item sl pg cfg) items = map Inr counts \<and>
     tg = a + sum_list (map fst counts) \<and>
     tp = b + sum_list (map (\<lambda>x. fst (snd x)) counts) \<and>
     tc = c + sum_list (map (\<lambda>x. snd (snd x)) counts)"
proof (induction items arbitrary: a b c)
  case Nil
  then show ?case by simp
next
  case (Cons item items)
  from Cons.prems obtain g p k where si: "score_item sl pg cfg item = Inr (g, p, k)"
    and rest: "score_items sl pg cfg items (a + g, b + p, c + k) = Inr (tg, tp, tc)"
    by (auto split: sum.splits)
  from Cons.IH[OF rest] obtain counts where
    "map (score_item sl pg cfg) items = map Inr counts"
    "tg = a + g + sum_list (map fst counts)"
    "tp = b + p + sum_list (map (\<lambda>x. fst (snd x)) counts)"
    "tc = c + k + sum_list (map (\<lambda>x. snd (snd x)) counts)" by auto
  with si show ?case
    by (intro exI[of _ "(g, p, k) # counts"]) simp
qed

lemma final_scores_cases:
  "final_scores (tg, tp, tc) =
     (if tp = 0 \<or> tg = 0 then Inl AssertionError
      else if tc = 0 then Inl ZeroDivisionError
      else Inr (of_nat tc / of_nat tp, of_nat tc / of_nat tg,
                2 * (of_nat tc / of_nat tp) * (of_nat tc / of_nat tg) /
                  (of_nat tc / of_nat tp + of_nat tc / of_nat tg)))"
proof -
  have pos: "tp \<noteq> 0 \<Longrightarrow> tg \<noteq> 0 \<Longrightarrow> tc \<noteq> 0 \<Longrightarrow>
    (of_nat tc / of_nat tp + of_nat tc / of_nat tg :: rat) \<noteq> 0"
  proof -
    assume "tp \<noteq> 0" "tg \<noteq> 0" "tc \<noteq> 0"
    then have "(of_nat tc / of_nat tp :: rat) > 0" "(of_nat tc / of_nat tg :: rat) > 0" by simp_all
    then show ?thesis by linarith
  qed
  show ?thesis using pos by (auto simp: final_scores_def py_div_def)
qed

lemma edge_triples_ok:
  "\<forall>(k, c) \<in> set es. k < length (relations node) \<and> c < length ns \<Longrightarrow>
   \<exists>ts'. edge_triples ns ise lbl node es ni ts = Inr ts'"
  by (induction ns ise lbl node es ni ts rule: edge_triples.induct) (auto simp: Let_def)

lemma enumerate_bounds: "(k, c) \<in> set (enumerate n xs) \<Longrightarrow> k < n + length xs \<and> c \<in> set xs"
  by (auto simp: in_set_enumerate_eq)

lemma node_edge_triples_ok:
  "\<forall>node \<in> set todo. length (relations node) = length (edges node) \<and>
        (\<forall>c \<in> set (edges node). c < length ns) \<Longrightarrow>
   \<exists>ts'. node_edge_triples ns ise lbl todo ts = Inr ts'"
proof (induction todo arbitrary: ts)
  case Nil
  then show ?case by simp
next
  case (Cons node todo)
  have "\<forall>(k, c) \<in> set (enumerate 0 (edges node)). k < length (relations node) \<and> c < length ns"
    using Cons.prems by (auto dest: enumerate_bounds)
  from edge_triples_ok[OF this] obtain ts1 where
    "edge_triples ns ise lbl node (enumerate 0 (edges node)) (span_str node ise) ts = Inr ts1"
    by blast
  moreover from Cons obtain ts2 where "node_edge_triples ns ise lbl todo ts1 = Inr ts2"
    by fastforce
  ultimately show ?case by simp
qed

lemma eds_triples_ok: "wf_graph g \<Longrightarrow> \<exists>ts. eds_triples g cfg = Inr ts"
proof -
  assume "wf_graph g"
  then have "\<exists>ts'. node_edge_triples (nodes g) (include_span_ends cfg) (labeled cfg) (nodes g)
       (top_triples (nodes g) (include_span_ends cfg)) = Inr ts'"
    by (intro node_edge_triples_ok) (auto simp: wf_graph_def)
  then show ?thesis
    by (auto simp: eds_triples_def relation_triples_def Let_def)
qed

lemma set_list_Nil: "set_list_ok sl \<Longrightarrow> sl [] = []"
  by (metis set_list_ok_def set_empty list.set(1))

lemma reconcile_Nil: "set_list_ok sl \<Longrightarrow> reconcile sl gt [] = Inr []"
  by (simp add: reconcile_def list_spans_def set_list_Nil inc_end_spans_def dec_end_spans_def)

lemma score_items_no_prediction:
  assumes "set_list_ok sl" and "\<forall>item \<in> set items. wf_graph (snd item)"
  shows "\<exists>tg tc. score_items sl Map.empty cfg items (a, 0, c) = Inr (tg, 0, tc)"
  using assms(2)
proof (induction items arbitrary: a c)
  case Nil
  then show ?case by simp
next
  case (Cons item items)
  then have "wf_graph (snd item)" by simp
  from eds_triples_ok[OF this] obtain ts where "eds_triples (snd item) cfg = Inr ts" by blast
  then have "\<exists>g. score_item sl Map.empty cfg item = Inr (g, 0, 0)"
    by (simp add: score_item_def item_triples_def reconcile_Nil[OF assms(1)])
  then obtain g where "score_item sl Map.empty cfg item = Inr (g, 0, 0)" by blast
  moreover from Cons obtain tg tc where
    "score_items sl Map.empty cfg items (a + g, 0, c) = Inr (tg, 0, tc)" by fastforce
  ultimately show ?case by simp
qed

text \<open>
  Claim C2. The scorer ends with the AssertionError of line 235 exactly when the loop over
  the gold items has finished and left \<open>total_predicted = 0\<close> or \<open>total_gold = 0\<close>. In
  particular, with an empty predicted corpus and constructed (well-formed) gold graphs the
  run ends with that AssertionError; no score is returned.
\<close>

theorem invalid_run:
  "(compute_f1 set_list gold_graphs predicted_graphs cfg = Inl AssertionError) =
     (\<exists>total_gold total_predicted total_correct.
        score_items set_list predicted_graphs cfg gold_graphs (0, 0, 0)
          = Inr (total_gold, total_predicted, total_correct) \<and>
        (total_predicted = 0 \<or> total_gold = 0))
   \<and> (set_list_ok set_list \<and> (\<forall>item \<in> set gold_graphs. wf_graph (snd item)) \<longrightarrow>
        compute_f1 set_list gold_graphs Map.empty cfg = Inl AssertionError)"
proof (intro conjI impI)
  show "(compute_f1 set_list gold_graphs predicted_graphs cfg = Inl AssertionError) =
     (\<exists>total_gold total_predicted total_correct.
        score_items set_list predicted_graphs cfg gold_graphs (0, 0, 0)
          = Inr (total_gold, total_predicted, total_correct) \<and>
        (total_predicted = 0 \<or> total_gold = 0))"
  proof (cases "score_items set_list predicted_graphs cfg gold_graphs (0, 0, 0)")
    case (Inl e)
    with score_items_error[OF Inl] show ?thesis by (auto simp: compute_f1_def)
  next
    case (Inr tot)
    obtain tg tp tc where "tot = (tg, tp, tc)" by (cases tot) auto
    with Inr show ?thesis by (auto simp: compute_f1_def final_scores_cases)
  qed
next
  assume "set_list_ok set_list \<and> (\<forall>item \<in> set gold_graphs. wf_graph (snd item))"
  then obtain tg tc where
    "score_items set_list Map.empty cfg gold_graphs (0, 0, 0) = Inr (tg, 0, tc)"
    using score_items_no_prediction[of set_list gold_graphs cfg 0 0] by blast
  then show "compute_f1 set_list gold_graphs Map.empty cfg = Inl AssertionError"
    by (simp add: compute_f1_def final_scores_cases)
qed


theorem invalid_run_witness:
  "set_list_ok remdups \<and> wf_graph (one_node_graph ''a'') \<and>
   compute_f1 remdups [(1, one_node_graph ''a'')] Map.empty full_config = Inl AssertionError"
  using invalid_run [of remdups "[(1, one_node_graph ''a'')]" Map.empty full_config]
  by (simp add: set_list_ok_def wf_graph_def one_node_graph_def MrsNode_init_def)


lemma str_int_0 [simp]: "str_int 0 = ''0''" by (simp add: str_int_def str_nat.simps digit_chr_def)
lemma str_int_1 [simp]: "str_int 1 = ''1''" by (simp add: str_int_def str_nat.simps digit_chr_def)

lemma one_node_parse: "parse_orig_json_line (one_node_record p) = Inr (one_node_graph p)"
  by (simp add: one_node_record_def one_node_graph_def parse_orig_json_line_def)

lemma set_list_single: "set_list_ok sl \<Longrightarrow> set xs = {a} \<Longrightarrow> sl xs = [a]"
proof -
  assume ok: "set_list_ok sl" and s: "set xs = {a}"
  then have d: "distinct (sl xs)" and e: "set (sl xs) = {a}" by (auto simp: set_list_ok_def)
  then have "card (set (sl xs)) = 1" by simp
  with d have "length (sl xs) = 1" by (simp add: distinct_card)
  then obtain b where "sl xs = [b]" by (cases "sl xs") auto
  with e show ?thesis by auto
qed

lemma shift11: "shift_end 1 ''0:1'' = Inr ''0:2''" 
  by (simp add: shift_end_def py_int_def py_strip_def is_space_def parse_decimal_def digit_val_def upt_rec str_int_def str_nat.simps digit_chr_def)
lemma shift12: "shift_end (-1) ''0:1'' = Inr ''0:0''" 
  by (simp add: shift_end_def py_int_def py_strip_def is_space_def parse_decimal_def digit_val_def upt_rec str_int_def str_nat.simps digit_chr_def)

text \<open>
  Claim C1. The claim promises precision, recall and F1 on every run that passes the
  assertion of line 235. For one gold node \<open>a\<close> and one predicted node \<open>b\<close> with the same
  span the totals are 1, 1 and 0: the assertion passes, precision and recall are 0, and
  the division of line 242 raises ZeroDivisionError instead of giving an F1.
\<close>

theorem no_correct_triple_raises:
  assumes "set_list_ok set_list"
  shows "compute_f1 set_list [(1, one_node_graph ''a'')] [1 \<mapsto> one_node_graph ''b''] full_config
         = Inl ZeroDivisionError"
proof -
  have g: "eds_triples (one_node_graph ''a'') full_config = Inr [''0:1 NAME a'']"
    by (simp add: eds_triples_def one_node_graph_def full_config_def MrsNode_init_def
        relation_triples_def span_str_def)
  have p: "eds_triples (one_node_graph ''b'') full_config = Inr [''0:1 NAME b'']"
    by (simp add: eds_triples_def one_node_graph_def full_config_def MrsNode_init_def
        relation_triples_def span_str_def)
  have gs: "list_spans set_list [''0:1 NAME a''] = [''0:1'']"
    using set_list_single[OF assms, of "[''0:1'']" "''0:1''"] by (simp add: list_spans_def)
  have ps: "list_spans set_list [''0:1 NAME b''] = [''0:1'']"
    using set_list_single[OF assms, of "[''0:1'']" "''0:1''"] by (simp add: list_spans_def)
  have r: "reconcile set_list [''0:1 NAME a''] [''0:1 NAME b''] = Inr [''0:1 NAME b'']"
    by (simp add: reconcile_def gs ps inc_end_spans_def dec_end_spans_def shift11 shift12)
  have "score_item set_list [1 \<mapsto> one_node_graph ''b''] full_config (1, one_node_graph ''a'')
        = Inr (1, 1, 0)"
    by (simp add: score_item_def item_triples_def g p r)
  then show ?thesis
    by (simp add: compute_f1_def final_scores_def py_div_def)
qed

theorem no_correct_triple_raises_witness:
  "set_list_ok remdups \<and>
   compute_f1 remdups [(1, one_node_graph ''a'')] [1 \<mapsto> one_node_graph ''b''] full_config
     = Inl ZeroDivisionError"
  using no_correct_triple_raises [of remdups] by (simp add: set_list_ok_def)

section \<open>Properties of the triple extractor\<close>

lemma top_triples_map:
  "top_triples ns ise = map (\<lambda>n. ''-1:-1 /H '' @ span_str n ise) (filter top_flag ns)"
  by (induction ns) auto

lemma py_split_rel:
  "CHR '' '' \<notin> set a \<Longrightarrow> CHR '' '' \<notin> set b \<Longrightarrow>
   py_split CHR '' '' (a @ '' REL '' @ b) = [a, ''REL'', b]"
proof -
  assume a: "CHR '' '' \<notin> set a" and b: "CHR '' '' \<notin> set b"
  have "py_split CHR '' '' (a @ CHR '' '' # (''REL'' @ CHR '' '' # b))
        = a # py_split CHR '' '' (''REL'' @ CHR '' '' # b)"
    using a by (rule py_split_append)
  also have "py_split CHR '' '' (''REL'' @ CHR '' '' # b) = ''REL'' # py_split CHR '' '' b"
    by (rule py_split_append) simp
  also have "py_split CHR '' '' b = [b]" using b by (rule py_split_notin)
  finally show ?thesis by simp
qed

lemma edge_triples_unlabeled:
  "edge_triples ns ise False node es ni ts = Inr ts' \<Longrightarrow>
   ni \<in> (\<lambda>n. span_str n ise) ` set ns \<Longrightarrow>
   \<exists>new. ts' = ts @ new \<and>
     (\<forall>t \<in> set new. \<exists>a \<in> (\<lambda>n. span_str n ise) ` set ns. \<exists>b \<in> (\<lambda>n. span_str n ise) ` set ns.
        t = a @ '' REL '' @ b)"
proof (induction es arbitrary: ni ts)
  case Nil
  then show ?case by simp
next
  case (Cons e rest)
  let ?S = "(\<lambda>n. span_str n ise) ` set ns"
  obtain k c where e: "e = (k, c)" by (cases e) auto
  from Cons.prems(1) have c: "c < length ns" unfolding e by (auto split: if_splits)
  then have ch: "span_str (ns ! c) ise \<in> ?S" by simp
  from Cons.prems(1) c ch Cons.prems(2) obtain ni' ci' where
    rec: "edge_triples ns ise False node rest ni' (ts @ [ni' @ '' REL '' @ ci']) = Inr ts'"
    and ni': "ni' \<in> ?S" and ci': "ci' \<in> ?S"
    unfolding e by (auto simp: Let_def split: if_splits)
  from Cons.IH[OF rec ni'] obtain new where n: "ts' = (ts @ [ni' @ '' REL '' @ ci']) @ new"
    and f: "\<forall>t \<in> set new. \<exists>a \<in> ?S. \<exists>b \<in> ?S. t = a @ '' REL '' @ b" by blast
  have "\<forall>t \<in> set ((ni' @ '' REL '' @ ci') # new). \<exists>a \<in> ?S. \<exists>b \<in> ?S. t = a @ '' REL '' @ b"
  proof
    fix t assume "t \<in> set ((ni' @ '' REL '' @ ci') # new)"
    then have "t = ni' @ '' REL '' @ ci' \<or> t \<in> set new" by simp
    then show "\<exists>a \<in> ?S. \<exists>b \<in> ?S. t = a @ '' REL '' @ b"
      using f ni' ci' by blast
  qed
  with n show ?case by (intro exI[of _ "(ni' @ '' REL '' @ ci') # new"]) simp
qed

lemma node_edge_triples_unlabeled:
  "node_edge_triples ns ise False todo ts = Inr ts' \<Longrightarrow> set todo \<subseteq> set ns \<Longrightarrow>
   \<exists>new. ts' = ts @ new \<and>
     (\<forall>t \<in> set new. \<exists>a \<in> (\<lambda>n. span_str n ise) ` set ns. \<exists>b \<in> (\<lambda>n. span_str n ise) ` set ns.
        t = a @ '' REL '' @ b)"
proof (induction todo arbitrary: ts)
  case Nil
  then show ?case by simp
next
  case (Cons node todo)
  let ?S = "(\<lambda>n. span_str n ise) ` set ns"
  from Cons.prems(1) obtain ts1 where
    e: "edge_triples ns ise False node (enumerate 0 (edges node)) (span_str node ise) ts = Inr ts1"
    and r: "node_edge_triples ns ise False todo ts1 = Inr ts'"
    by (auto split: sum.splits)
  have "span_str node ise \<in> ?S" using Cons.prems(2) by auto
  from edge_triples_unlabeled[OF e this] obtain new1 where n1: "ts1 = ts @ new1"
    and f1: "\<forall>t \<in> set new1. \<exists>a \<in> ?S. \<exists>b \<in> ?S. t = a @ '' REL '' @ b" by blast
  from Cons.IH[OF r] Cons.prems(2) obtain new2 where n2: "ts' = ts1 @ new2"
    and f2: "\<forall>t \<in> set new2. \<exists>a \<in> ?S. \<exists>b \<in> ?S. t = a @ '' REL '' @ b" by auto
  from f1 f2 have "\<forall>t \<in> set (new1 @ new2). \<exists>a \<in> ?S. \<exists>b \<in> ?S. t = a @ '' REL '' @ b"
    by auto
  with n1 n2 show ?case by (intro exI[of _ "new1 @ new2"]) simp
qed

text \<open>The first edge of a node: an equality edge whose parent lies after its child is
  emitted child first, also when it is unlabeled.\<close>

lemma first_edge_swapped:
  assumes "edge_triples ns ise False node (enumerate 0 (edges node)) (span_str node ise) ts = Inr ts'"
    and "edges node = c # cs" and "relations node = ''/EQ'' # rs"
    and "start node > start (ns ! c) \<or> (start node = start (ns ! c) \<and> endpos node > endpos (ns ! c))"
  shows "\<exists>new. ts' = ts @ new \<and> span_str (ns ! c) ise @ '' REL '' @ span_str node ise \<in> set new"
proof -
  let ?S = "(\<lambda>n. span_str n ise) ` set ns"
  let ?t = "span_str (ns ! c) ise @ '' REL '' @ span_str node ise"
  from assms have c: "c < length ns" by (auto simp: enumerate_simps split: if_splits)
  with assms have rec: "edge_triples ns ise False node (enumerate 1 cs) (span_str (ns ! c) ise)
      (ts @ [?t]) = Inr ts'"
    by (auto simp: Let_def split: if_splits)
  have "span_str (ns ! c) ise \<in> ?S" using c by simp
  from edge_triples_unlabeled[OF rec this] obtain new where "ts' = (ts @ [?t]) @ new" by blast
  then show ?thesis by (intro exI[of _ "?t # new"]) simp
qed

lemma node_first_edge_swapped:
  assumes "node_edge_triples ns ise False todo ts = Inr ts'" and "set todo \<subseteq> set ns"
    and "node \<in> set todo"
    and "edges node = c # cs" and "relations node = ''/EQ'' # rs"
    and "start node > start (ns ! c) \<or> (start node = start (ns ! c) \<and> endpos node > endpos (ns ! c))"
  shows "\<exists>new. ts' = ts @ new \<and> span_str (ns ! c) ise @ '' REL '' @ span_str node ise \<in> set new"
  using assms(1,2,3)
proof (induction todo arbitrary: ts)
  case Nil
  then show ?case by simp
next
  case (Cons n todo)
  let ?t = "span_str (ns ! c) ise @ '' REL '' @ span_str node ise"
  from Cons.prems(1) obtain ts1 where
    e: "edge_triples ns ise False n (enumerate 0 (edges n)) (span_str n ise) ts = Inr ts1"
    and r: "node_edge_triples ns ise False todo ts1 = Inr ts'"
    by (auto split: sum.splits)
  have nS: "span_str n ise \<in> (\<lambda>n. span_str n ise) ` set ns" using Cons.prems(2) by auto
  from Cons.prems(2) have sub: "set todo \<subseteq> set ns" by simp
  show ?case
  proof (cases "node = n")
    case True
    from first_edge_swapped[OF e[folded True] assms(4,5,6)] obtain new1 where
      n1: "ts1 = ts @ new1" and m: "?t \<in> set new1" by blast
    from node_edge_triples_unlabeled[OF r sub] obtain new2 where "ts' = ts1 @ new2" by blast
    with n1 m show ?thesis by (intro exI[of _ "new1 @ new2"]) simp
  next
    case False
    with Cons.prems(3) have "node \<in> set todo" by simp
    from Cons.IH[OF r sub this] obtain new2 where n2: "ts' = ts1 @ new2" and m: "?t \<in> set new2"
      by blast
    from edge_triples_unlabeled[OF e nS] obtain new1 where "ts1 = ts @ new1" by blast
    with n2 m show ?thesis by (intro exI[of _ "new1 @ new2"]) simp
  qed
qed

lemma edge_triples_fields:
  "edge_triples ns ise lbl node es ni ts =
     (if \<forall>e \<in> set es. snd e < length ns \<and> fst e < length (relations node)
      then Inr (ts @ map (edge_triple lbl) (edge_fields ns ise node es ni))
      else Inl IndexError)"
proof (induction es arbitrary: ni ts)
  case Nil
  show ?case by simp
next
  case (Cons e rest)
  obtain k c where e: "e = (k, c)" by (cases e) auto
  show ?case unfolding e
    by (simp add: Cons.IH Let_def eq_swap_def edge_triple_def)
qed

lemma node_edge_triples_fields:
  "node_edge_triples ns ise lbl todo ts =
     (if \<forall>node \<in> set todo. \<forall>e \<in> set (enumerate 0 (edges node)).
           snd e < length ns \<and> fst e < length (relations node)
      then Inr (ts @ map (edge_triple lbl)
             (concat (map (\<lambda>node. edge_fields ns ise node (enumerate 0 (edges node))
                                     (span_str node ise)) todo)))
      else Inl IndexError)"
proof (induction todo arbitrary: ts)
  case Nil
  show ?case by simp
next
  case (Cons node todo)
  show ?case by (simp add: edge_triples_fields Cons.IH)
qed

lemma edge_fields_length: "length (edge_fields ns ise node es p) = length es"
proof (induction es arbitrary: p)
  case Nil
  show ?case by simp
next
  case (Cons e rest)
  obtain k c where e: "e = (k, c)" by (cases e) auto
  show ?case unfolding e by (simp add: Cons.IH Let_def)
qed

lemma edge_fields_nth:
  "j < length es \<Longrightarrow>
   edge_fields ns ise node es p ! j =
     (let child_node = ns ! snd (es ! j);
          r = relations node ! fst (es ! j);
          held = (if j = 0 then p else fst (edge_fields ns ise node es p ! (j - 1)))
      in if eq_swap node child_node r
         then (span_str child_node ise, r, held)
         else (held, r, span_str child_node ise))"
proof (induction es arbitrary: p j)
  case Nil
  then show ?case by simp
next
  case (Cons e rest)
  obtain k c where e: "e = (k, c)" by (cases e) auto
  show ?case
  proof (cases j)
    case 0
    then show ?thesis unfolding e by (simp add: Let_def)
  next
    case (Suc j')
    with Cons.prems have j': "j' < length rest" by simp
    let ?p' = "if eq_swap node (ns ! c) (relations node ! k) then span_str (ns ! c) ise else p"
    have u: "edge_fields ns ise node ((k, c) # rest) p ! Suc j'
             = edge_fields ns ise node rest ?p' ! j'"
      by (simp add: Let_def)
    have h: "fst (edge_fields ns ise node ((k, c) # rest) p ! j')
             = (if j' = 0 then ?p' else fst (edge_fields ns ise node rest ?p' ! (j' - 1)))"
      by (cases j') (simp_all add: Let_def)
    show ?thesis unfolding e Suc u
      by (simp only: Cons.IH[OF j'] h nth_Cons_Suc diff_Suc_1 nat.simps if_False)
  qed
qed

lemma edge_fields_spans:
  assumes "\<forall>e \<in> set es. snd e < length ns" and "p \<in> (\<lambda>n. span_str n ise) ` set ns"
  shows "\<forall>f \<in> set (edge_fields ns ise node es p).
           fst f \<in> (\<lambda>n. span_str n ise) ` set ns \<and> snd (snd f) \<in> (\<lambda>n. span_str n ise) ` set ns"
  using assms
proof (induction es arbitrary: p)
  case Nil
  show ?case by simp
next
  case (Cons e rest)
  obtain k c where e: "e = (k, c)" by (cases e) auto
  from Cons.prems(1) have c: "c < length ns" and r: "\<forall>e \<in> set rest. snd e < length ns"
    unfolding e by auto
  from c have ch: "span_str (ns ! c) ise \<in> (\<lambda>n. span_str n ise) ` set ns" by simp
  let ?p' = "if eq_swap node (ns ! c) (relations node ! k) then span_str (ns ! c) ise else p"
  from ch Cons.prems(2) have p': "?p' \<in> (\<lambda>n. span_str n ise) ` set ns" by simp
  from Cons.IH[OF r p'] ch Cons.prems(2) show ?case unfolding e
    by (simp add: Let_def)
qed

lemma node_edge_fields_holds:
  "node_edge_fields ns ise node
     (edge_fields ns ise node (enumerate 0 (edges node)) (span_str node ise))"
  unfolding node_edge_fields_def
proof (intro conjI ballI)
  show "length (edge_fields ns ise node (enumerate 0 (edges node)) (span_str node ise))
        = length (edges node)"
    by (simp add: edge_fields_length)
next
  fix k assume "k \<in> set [0..<length (edges node)]"
  then have k: "k < length (enumerate 0 (edges node))" by simp
  then have k': "k < length (edges node)" by simp
  show "edge_fields ns ise node (enumerate 0 (edges node)) (span_str node ise) ! k =
       (let child_node = ns ! (edges node ! k);
            r = relations node ! k;
            held = (if k = 0 then span_str node ise
                    else fst (edge_fields ns ise node (enumerate 0 (edges node))
                                (span_str node ise) ! (k - 1)))
        in if eq_swap node child_node r
           then (span_str child_node ise, r, held)
           else (held, r, span_str child_node ise))"
    by (simp only: edge_fields_nth[OF k] nth_enumerate_eq[OF k'] fst_conv snd_conv add_0)
qed

lemma edge_triple_unlabeled: "edge_triple False = (\<lambda>(a, r, b). a @ '' REL '' @ b)"
  by (auto simp: edge_triple_def fun_eq_iff)

lemma edge_triple_labeled:
  "edge_triple True = (\<lambda>(a, r, b). a @ '' '' @ (if r = ''/EQ'' then ''/EQ/U'' else r) @ '' '' @ b)"
  by (auto simp: edge_triple_def fun_eq_iff)

lemma relation_triples_ok:
  assumes "wf_graph g"
  shows "\<exists>ts. relation_triples g ise lbl = Inr ts"
proof -
  have "\<forall>node \<in> set (nodes g). \<forall>e \<in> set (enumerate 0 (edges node)).
           snd e < length (nodes g) \<and> fst e < length (relations node)"
  proof (intro ballI)
    fix node e assume n: "node \<in> set (nodes g)" and e: "e \<in> set (enumerate 0 (edges node))"
    from n assms have l: "length (relations node) = length (edges node)"
      and c: "\<forall>child_index \<in> set (edges node). child_index < length (nodes g)"
      by (auto simp: wf_graph_def)
    from e have f: "fst e < length (edges node)" and "edges node ! fst e = snd e"
      by (auto simp: in_set_enumerate_eq)
    with nth_mem[OF f] have "fst e < length (edges node)" "snd e \<in> set (edges node)"
      by simp_all
    with l c show "snd e < length (nodes g) \<and> fst e < length (relations node)" by simp
  qed
  then show ?thesis by (simp add: relation_triples_def node_edge_triples_fields)
qed

text \<open>The description of the edges of a node by \<open>node_edge_fields\<close> fits one list only.\<close>

lemma node_edge_fields_unique:
  assumes "node_edge_fields ns ise node seg" and "node_edge_fields ns ise node seg'"
  shows "seg = seg'"
proof (rule nth_equalityI)
  from assms show "length seg = length seg'" by (simp add: node_edge_fields_def)
next
  fix k assume "k < length seg"
  with assms(1) have "k < length (edges node)" by (simp add: node_edge_fields_def)
  then show "seg ! k = seg' ! k"
  proof (induction k)
    case 0
    with assms show ?case by (simp add: node_edge_fields_def)
  next
    case (Suc k)
    then have "seg ! k = seg' ! k" by simp
    with Suc.prems assms show ?case by (simp add: node_edge_fields_def)
  qed
qed

text \<open>
  Claim C10. With \<open>labeled = False\<close> the relation triples are the root markers, which keep
  their label \<^verbatim>\<open>/H\<close>, followed by one triple for every edge of every node, in the order of
  the nodes and of their edges (\<open>segs\<close> holds the pieces of the triples, node by node). The
  triple of an edge is \<open>a REL b\<close>, also for an equality edge, and its label field (the second
  piece of the split at spaces) is \<open>REL\<close>. The same edge gives with \<open>labeled = True\<close> the
  triple with the same two ends, in the same order, and the label of the edge (\<^verbatim>\<open>/EQ/U\<close> for
  \<^verbatim>\<open>/EQ\<close>): the unlabeled triples are the labeled ones with every edge label replaced by
  \<open>REL\<close>. The swap of the ends of an equality edge is made at every edge
  (\<open>node_edge_fields\<close>). On a well-formed graph the extraction returns.
\<close>

theorem unlabeled_relation_triples:
  "(wf_graph g \<longrightarrow> (\<exists>ts. relation_triples g ise False = Inr ts))
   \<and> (\<forall>ts. relation_triples g ise False = Inr ts \<longrightarrow>
        (\<exists>segs. length segs = length (nodes g)
           \<and> (\<forall>i \<in> set [0..<length (nodes g)].
                 node_edge_fields (nodes g) ise (nodes g ! i) (segs ! i))
           \<and> ts = map (\<lambda>n. ''-1:-1 /H '' @ span_str n ise) (filter top_flag (nodes g))
                  @ map (\<lambda>(a, r, b). a @ '' REL '' @ b) (concat segs)
           \<and> relation_triples g ise True
               = Inr (map (\<lambda>n. ''-1:-1 /H '' @ span_str n ise) (filter top_flag (nodes g))
                      @ map (\<lambda>(a, r, b).
                               a @ '' '' @ (if r = ''/EQ'' then ''/EQ/U'' else r) @ '' '' @ b)
                          (concat segs))
           \<and> (\<forall>(a, r, b) \<in> set (concat segs).
                 py_split CHR '' '' (a @ '' REL '' @ b) = [a, ''REL'', b])))"
proof (intro conjI impI allI)
  assume "wf_graph g"
  then show "\<exists>ts. relation_triples g ise False = Inr ts" by (rule relation_triples_ok)
next
  fix ts assume r: "relation_triples g ise False = Inr ts"
  let ?S = "(\<lambda>n. span_str n ise) ` set (nodes g)"
  let ?tops = "map (\<lambda>n. ''-1:-1 /H '' @ span_str n ise) (filter top_flag (nodes g))"
  let ?seg = "\<lambda>node. edge_fields (nodes g) ise node (enumerate 0 (edges node)) (span_str node ise)"
  let ?segs = "map ?seg (nodes g)"
  from r have ok: "\<forall>node \<in> set (nodes g). \<forall>e \<in> set (enumerate 0 (edges node)).
           snd e < length (nodes g) \<and> fst e < length (relations node)"
    by (simp add: relation_triples_def node_edge_triples_fields split: if_splits)
  from r ok have ts: "ts = ?tops @ map (\<lambda>(a, r, b). a @ '' REL '' @ b) (concat ?segs)"
    by (simp add: relation_triples_def node_edge_triples_fields top_triples_map
        edge_triple_unlabeled)
  from ok have lab: "relation_triples g ise True
      = Inr (?tops @ map (\<lambda>(a, r, b).
                a @ '' '' @ (if r = ''/EQ'' then ''/EQ/U'' else r) @ '' '' @ b) (concat ?segs))"
    by (simp add: relation_triples_def node_edge_triples_fields top_triples_map
        edge_triple_labeled)
  have len: "length ?segs = length (nodes g)" by simp
  have fields: "\<forall>i \<in> set [0..<length (nodes g)].
      node_edge_fields (nodes g) ise (nodes g ! i) (?segs ! i)"
    by (simp add: node_edge_fields_holds)
  have split: "\<forall>(a, r, b) \<in> set (concat ?segs).
      py_split CHR '' '' (a @ '' REL '' @ b) = [a, ''REL'', b]"
  proof (intro ballI, clarify)
    fix a r b assume "(a, r, b) \<in> set (concat ?segs)"
    then obtain node where n: "node \<in> set (nodes g)" and f: "(a, r, b) \<in> set (?seg node)"
      by auto
    from ok n have c: "\<forall>e \<in> set (enumerate 0 (edges node)). snd e < length (nodes g)" by blast
    from n have p: "span_str node ise \<in> ?S" by simp
    from edge_fields_spans[OF c p, of node] f have "a \<in> ?S" "b \<in> ?S" by force+
    then have "CHR '' '' \<notin> set a" "CHR '' '' \<notin> set b" by auto
    then show "py_split CHR '' '' (a @ '' REL '' @ b) = [a, ''REL'', b]" by (rule py_split_rel)
  qed
  from len fields ts lab split
  show "\<exists>segs. length segs = length (nodes g)
           \<and> (\<forall>i \<in> set [0..<length (nodes g)].
                 node_edge_fields (nodes g) ise (nodes g ! i) (segs ! i))
           \<and> ts = ?tops @ map (\<lambda>(a, r, b). a @ '' REL '' @ b) (concat segs)
           \<and> relation_triples g ise True
               = Inr (?tops @ map (\<lambda>(a, r, b).
                               a @ '' '' @ (if r = ''/EQ'' then ''/EQ/U'' else r) @ '' '' @ b)
                          (concat segs))
           \<and> (\<forall>(a, r, b) \<in> set (concat segs).
                 py_split CHR '' '' (a @ '' REL '' @ b) = [a, ''REL'', b])"
    by (intro exI[of _ ?segs] conjI)
qed

lemmas str_eval = str_int_def str_nat.simps digit_chr_def

lemma eq_forward_parse: "parse_orig_json_line eq_forward_record = Inr eq_forward_graph"
  by (simp add: eq_forward_record_def eq_forward_graph_def parse_orig_json_line_def
      MrsNode_init_def append_edge_def str_eval)

lemma eq_reversed_parse: "parse_orig_json_line eq_reversed_record = Inr eq_reversed_graph"
  by (simp add: eq_reversed_record_def eq_reversed_graph_def parse_orig_json_line_def
      MrsNode_init_def append_edge_def str_eval)

text \<open>
  Claim C3. The claim says that an equality edge and its reverse give the same triple.
  The swap of line 150 overwrites \<^verbatim>\<open>node_ind\<close>, which is set once for each node, so after a
  swapped equality edge the later edges of the same node are emitted with the span of
  that edge's child in place of the parent's. In the first graph the edge from A (5:6)
  to B (3:4) comes after the swapped edge from A to C (1:2) and is emitted as
  \<open>3:4 /EQ/U 1:2\<close>; the reversed edge from B to A in the second graph is emitted as
  \<open>3:4 /EQ/U 5:6\<close>.
\<close>

theorem eq_edge_not_canonical:
  "parse_orig_json_line eq_forward_record = Inr eq_forward_graph
   \<and> parse_orig_json_line eq_reversed_record = Inr eq_reversed_graph
   \<and> relation_triples eq_forward_graph True True
     = Inr [''-1:-1 /H 5:6'', ''1:2 /EQ/U 5:6'', ''3:4 /EQ/U 1:2'']
   \<and> relation_triples eq_reversed_graph True True
     = Inr [''-1:-1 /H 5:6'', ''1:2 /EQ/U 5:6'', ''3:4 /EQ/U 5:6'']"
  by (simp add: eq_forward_parse eq_reversed_parse)
     (simp add: eq_forward_graph_def eq_reversed_graph_def relation_triples_def span_str_def
      str_eval enumerate_simps)

theorem unlabeled_relation_triples_witness:
  "wf_graph eq_forward_graph
   \<and> relation_triples eq_forward_graph True False
       = Inr [''-1:-1 /H 5:6'', ''1:2 REL 5:6'', ''3:4 REL 1:2'']
   \<and> relation_triples eq_forward_graph True True
       = Inr [''-1:-1 /H 5:6'', ''1:2 /EQ/U 5:6'', ''3:4 /EQ/U 1:2'']
   \<and> (\<exists>segs. length segs = 3
         \<and> node_edge_fields (nodes eq_forward_graph) True (nodes eq_forward_graph ! 0) (segs ! 0)
         \<and> segs ! 0 = [(''1:2'', ''/EQ'', ''5:6''), (''3:4'', ''/EQ'', ''1:2'')]
         \<and> segs ! 1 = [] \<and> segs ! 2 = []
         \<and> [''-1:-1 /H 5:6'', ''1:2 REL 5:6'', ''3:4 REL 1:2'']
             = ''-1:-1 /H 5:6'' # map (\<lambda>(a, r, b). a @ '' REL '' @ b) (concat segs))"
proof -
  let ?g = eq_forward_graph
  let ?ts = "[''-1:-1 /H 5:6'', ''1:2 REL 5:6'', ''3:4 REL 1:2'']"
  have w: "wf_graph ?g" by (simp add: wf_graph_def eq_forward_graph_def)
  have u: "relation_triples ?g True False = Inr ?ts"
    by (simp add: eq_forward_graph_def relation_triples_def span_str_def str_eval
        enumerate_simps)
  have l: "relation_triples ?g True True
       = Inr [''-1:-1 /H 5:6'', ''1:2 /EQ/U 5:6'', ''3:4 /EQ/U 1:2'']"
    by (simp add: eq_forward_graph_def relation_triples_def span_str_def str_eval
        enumerate_simps)
  have tops: "map (\<lambda>n. ''-1:-1 /H '' @ span_str n True) (filter top_flag (nodes ?g))
      = [''-1:-1 /H 5:6'']"
    by (simp add: eq_forward_graph_def span_str_def str_eval)
  have n: "length (nodes ?g) = 3" by (simp add: eq_forward_graph_def)
  have f0: "node_edge_fields (nodes ?g) True (nodes ?g ! 0)
      [(''1:2'', ''/EQ'', ''5:6''), (''3:4'', ''/EQ'', ''1:2'')]"
    by (simp add: node_edge_fields_def eq_forward_graph_def eq_swap_def span_str_def str_eval
        upt_rec)
  have f1: "node_edge_fields (nodes ?g) True (nodes ?g ! 1) []"
    by (simp add: node_edge_fields_def eq_forward_graph_def)
  have f2: "node_edge_fields (nodes ?g) True (nodes ?g ! 2) []"
    by (simp add: node_edge_fields_def eq_forward_graph_def)
  from unlabeled_relation_triples [of ?g True] u obtain segs where
    len: "length segs = length (nodes ?g)"
    and f: "\<forall>i \<in> set [0..<length (nodes ?g)].
               node_edge_fields (nodes ?g) True (nodes ?g ! i) (segs ! i)"
    and ts: "?ts = map (\<lambda>n. ''-1:-1 /H '' @ span_str n True) (filter top_flag (nodes ?g))
                  @ map (\<lambda>(a, r, b). a @ '' REL '' @ b) (concat segs)"
    by blast
  from f n have g0: "node_edge_fields (nodes ?g) True (nodes ?g ! 0) (segs ! 0)"
    and g1: "node_edge_fields (nodes ?g) True (nodes ?g ! 1) (segs ! 1)"
    and g2: "node_edge_fields (nodes ?g) True (nodes ?g ! 2) (segs ! 2)"
    by simp_all
  have s0: "segs ! 0 = [(''1:2'', ''/EQ'', ''5:6''), (''3:4'', ''/EQ'', ''1:2'')]"
    using g0 f0 by (rule node_edge_fields_unique)
  have s1: "segs ! 1 = []" using g1 f1 by (rule node_edge_fields_unique)
  have s2: "segs ! 2 = []" using g2 f2 by (rule node_edge_fields_unique)
  from len n g0 s0 s1 s2 ts[unfolded tops]
  have "\<exists>segs. length segs = 3
         \<and> node_edge_fields (nodes ?g) True (nodes ?g ! 0) (segs ! 0)
         \<and> segs ! 0 = [(''1:2'', ''/EQ'', ''5:6''), (''3:4'', ''/EQ'', ''1:2'')]
         \<and> segs ! 1 = [] \<and> segs ! 2 = []
         \<and> ?ts = ''-1:-1 /H 5:6'' # map (\<lambda>(a, r, b). a @ '' REL '' @ b) (concat segs)"
    by (intro exI[of _ segs]) simp
  with w u l show ?thesis by blast
qed

text \<open>For the first edge of a node the orientation is canonical: the equality edge from A
  to B and the one from B to A give the same triple.\<close>

lemma eq_first_edge_canonical:
  assumes "b < length ns" and "a < length ns'"
    and "start (ns ! b) = start B" and "endpos (ns ! b) = endpos B"
    and "start (ns' ! a) = start A" and "endpos (ns' ! a) = endpos A"
    and "relations A = [''/EQ'']" and "relations B = [''/EQ'']"
  shows "edge_triples ns ise lbl A [(0, b)] (span_str A ise) []
       = edge_triples ns' ise lbl B [(0, a)] (span_str B ise) []"
  using assms by (auto simp: Let_def span_str_def)

section \<open>Properties of the span reconciler\<close>

lemma replace_new_spans_fold:
  "n + length news \<le> length ps \<Longrightarrow>
   replace_new_spans gs ps (enumerate n news) ts
     = Inr (fold (rewrite_step gs) (zip (drop n ps) news) ts)"
proof (induction news arbitrary: n ts)
  case Nil
  then show ?case by simp
next
  case (Cons new news)
  from Cons.prems have n: "n < length ps" and r: "Suc n + length news \<le> length ps" by simp_all
  from n have d: "drop n ps = ps ! n # drop (Suc n) ps" by (simp add: Cons_nth_drop_Suc)
  show ?case using n Cons.IH[OF r] by (simp add: d rewrite_step_def Let_def)
qed

lemma replace_new_spans_pass:
  "length news = length ps \<Longrightarrow>
   replace_new_spans gs ps (enumerate 0 news) ts = Inr (shift_pass gs ps news ts)"
  using replace_new_spans_fold[of 0 news ps gs ts] by (simp add: shift_pass_def)

lemma map_result_ok:
  "\<forall>x \<in> set xs. \<exists>y. f x = Inr y \<Longrightarrow> \<exists>ys. map_result f xs = Inr ys \<and> length ys = length xs"
proof (induction xs)
  case Nil
  then show ?case by simp
next
  case (Cons x xs)
  then obtain y ys where "f x = Inr y" "map_result f xs = Inr ys" "length ys = length xs"
    by auto
  then show ?case by simp
qed

lemma map_result_nth:
  "map_result f xs = Inr ys \<Longrightarrow> i < length xs \<Longrightarrow> f (xs ! i) = Inr (ys ! i)"
proof (induction xs arbitrary: ys i)
  case Nil
  then show ?case by simp
next
  case (Cons x xs)
  then show ?case by (cases i) (auto split: sum.splits)
qed

lemma shift_pass_id:
  "\<forall>p \<in> set (zip ps news). \<not> (fst p \<notin> gs \<and> snd p \<in> gs) \<Longrightarrow> shift_pass gs ps news ts = ts"
proof -
  have "\<And>zs. \<forall>p \<in> set zs. \<not> (fst p \<notin> gs \<and> snd p \<in> gs) \<Longrightarrow> fold (rewrite_step gs) zs ts = ts"
  proof -
    fix zs show "\<forall>p \<in> set zs. \<not> (fst p \<notin> gs \<and> snd p \<in> gs) \<Longrightarrow> fold (rewrite_step gs) zs ts = ts"
      by (induction zs) (auto simp: rewrite_step_def)
  qed
  then show "\<forall>p \<in> set (zip ps news). \<not> (fst p \<notin> gs \<and> snd p \<in> gs) \<Longrightarrow> shift_pass gs ps news ts = ts"
    unfolding shift_pass_def by blast
qed

lemma shift_end_both:
  "shift_end d s = Inr r \<Longrightarrow> \<exists>r'. shift_end d' s = Inr r'"
  by (auto simp: shift_end_def Let_def split: if_splits sum.splits)

text \<open>The reconciler in terms of the two passes.\<close>

lemma reconcile_passes:
  "reconcile sl gt pt =
     (case inc_end_spans (list_spans sl pt) of
        Inl e \<Rightarrow> Inl e
      | Inr new1 \<Rightarrow>
          (case dec_end_spans (list_spans sl pt) of
             Inl e \<Rightarrow> Inl e
           | Inr new2 \<Rightarrow>
               Inr (shift_pass (set (list_spans sl gt)) (list_spans sl pt) new2
                      (shift_pass (set (list_spans sl gt)) (list_spans sl pt) new1 pt))))"
proof (cases "inc_end_spans (list_spans sl pt)")
  case (Inl e)
  then show ?thesis by (simp add: reconcile_def)
next
  case (Inr new1)
  then have l1: "length new1 = length (list_spans sl pt)"
    by (simp add: inc_end_spans_def map_result_length)
  show ?thesis
  proof (cases "dec_end_spans (list_spans sl pt)")
    case (Inl e)
    with Inr l1 show ?thesis by (simp add: reconcile_def replace_new_spans_pass)
  next
    case new2: (Inr new2)
    then have l2: "length new2 = length (list_spans sl pt)"
      by (simp add: dec_end_spans_def map_result_length)
    from Inr new2 l1 l2 show ?thesis by (simp add: reconcile_def replace_new_spans_pass Let_def)
  qed
qed

text \<open>
  Claim C4, as the code has it. The predicted spans that drive the rewriting are the spans
  of the predicted triples without duplicates, in the order in which the set enumerates
  them; the list is computed once, from the extracted predicted triples, before the first
  pass, and both passes (the ends shifted by +1, then by -1) run over that same list, the
  second pass on the triples the first one returned.
\<close>

theorem reconcile_spans_once:
  assumes "set_list_ok set_list"
  shows "distinct (list_spans set_list predicted_triples)
    \<and> set (list_spans set_list predicted_triples) = set (spec_predicted_spans predicted_triples)
    \<and> reconcile set_list gold_triples predicted_triples =
       (case inc_end_spans (list_spans set_list predicted_triples) of
          Inl e \<Rightarrow> Inl e
        | Inr new1 \<Rightarrow>
            (case dec_end_spans (list_spans set_list predicted_triples) of
               Inl e \<Rightarrow> Inl e
             | Inr new2 \<Rightarrow>
                 Inr (shift_pass (set (list_spans set_list gold_triples))
                        (list_spans set_list predicted_triples) new2
                        (shift_pass (set (list_spans set_list gold_triples))
                           (list_spans set_list predicted_triples) new1 predicted_triples))))"
  using assms reconcile_passes[of set_list gold_triples predicted_triples]
  by (simp add: set_list_ok_def list_spans_def spec_predicted_spans_def)

text \<open>
  Claim C4, as stated, fails: two predicted triples with the same span give the span
  twice in the list of the specification and once in the list the code uses (a set with
  one element has one enumeration, see \<open>list_spans_never_duplicates\<close>).
\<close>

theorem predicted_spans_duplicates_counterexample:
  "spec_predicted_spans [''0:1 NAME a'', ''0:1 NAME b''] = [''0:1'', ''0:1'']
   \<and> list_spans remdups [''0:1 NAME a'', ''0:1 NAME b''] = [''0:1'']"
  by (simp add: spec_predicted_spans_def list_spans_def)

lemma list_spans_never_duplicates:
  "set_list_ok sl \<Longrightarrow> list_spans sl [''0:1 NAME a'', ''0:1 NAME b''] = [''0:1'']"
  using set_list_single[of sl "[''0:1'', ''0:1'']" "''0:1''"] by (simp add: list_spans_def)

theorem reconcile_spans_once_witness:
  "set_list_ok remdups
   \<and> list_spans remdups [''3:4 NAME a'', ''3:4 NAME b''] = [''3:4'']
   \<and> reconcile remdups [''3:5 NAME a''] [''3:4 NAME a'', ''3:4 NAME b'']
       = Inr [''3:5 NAME a'', ''3:5 NAME b'']"
  using reconcile_spans_once [of remdups "[''3:4 NAME a'', ''3:4 NAME b'']" "[''3:5 NAME a'']"]
  by (simp add: set_list_ok_def list_spans_def spec_predicted_spans_def inc_end_spans_def
      dec_end_spans_def shift_end_def py_int_def py_strip_def is_space_def parse_decimal_def digit_val_def upt_rec
      str_eval shift_pass_def rewrite_step_def py_replace_def py_replace_ne.simps)

section \<open>Spans of the extracted triples\<close>

lemma spans_added_append: "spans_added (xs @ ys) = spans_added xs @ spans_added ys"
  by (induction xs) (simp_all add: Let_def)



lemma spans_kind:
  assumes "CHR '' '' \<notin> set sp" and "kind = ''NAME'' \<or> kind = ''CARG''"
  shows "spans_added [sp @ '' '' @ kind @ '' '' @ rest] = [sp]"
proof -
  have k: "CHR '' '' \<notin> set kind" using assms(2) by auto
  have "py_split CHR '' '' (sp @ CHR '' '' # (kind @ CHR '' '' # rest))
        = sp # py_split CHR '' '' (kind @ CHR '' '' # rest)"
    using assms(1) by (rule py_split_append)
  also have "py_split CHR '' '' (kind @ CHR '' '' # rest) = kind # py_split CHR '' '' rest"
    using k by (rule py_split_append)
  finally have "py_split CHR '' '' (sp @ '' '' @ kind @ '' '' @ rest)
      = sp # kind # py_split CHR '' '' rest" by simp
  with assms(2) show ?thesis by (auto simp: Let_def)
qed

lemma spans_bare: "CHR '' '' \<notin> set c \<Longrightarrow> spans_added [c] = []"
  by (simp add: py_split_notin)

lemma spans_relation:
  assumes "CHR '' '' \<notin> set a" and "CHR '' '' \<notin> set rel" and "CHR '' '' \<notin> set b"
  shows "set (spans_added [a @ '' '' @ rel @ '' '' @ b]) \<subseteq> {a, b}"
proof -
  have "py_split CHR '' '' (a @ CHR '' '' # (rel @ CHR '' '' # b))
        = a # py_split CHR '' '' (rel @ CHR '' '' # b)"
    using assms(1) by (rule py_split_append)
  also have "py_split CHR '' '' (rel @ CHR '' '' # b) = rel # py_split CHR '' '' b"
    using assms(2) by (rule py_split_append)
  also have "py_split CHR '' '' b = [b]" using assms(3) by (rule py_split_notin)
  finally have "py_split CHR '' '' (a @ '' '' @ rel @ '' '' @ b) = [a, rel, b]" by simp
  then show ?thesis by (simp add: Let_def)
qed

lemma predicate_triples_spans:
  "set (spans_added (predicate_triples ns ic ise)) \<subseteq> (\<lambda>n. span_str n ise) ` set ns"
proof (induction ns)
  case Nil
  then show ?case by simp
next
  case (Cons n ns)
  let ?A = "span_str n ise @ '' NAME '' @ concept n"
  let ?B = "span_str n ise @ '' CARG '' @ constant_val n"
  have a: "spans_added [?A] = [span_str n ise]"
    using spans_kind[of "span_str n ise" "''NAME''" "concept n"] by simp
  have b: "spans_added [?B] = [span_str n ise]"
    using spans_kind[of "span_str n ise" "''CARG''" "constant_val n"] by simp
  show ?case
  proof (cases "ic \<and> constant_val n \<noteq> []")
    case True
    then have eq: "predicate_triples (n # ns) ic ise = [?A] @ [?B] @ predicate_triples ns ic ise"
      by simp
    show ?thesis unfolding eq spans_added_append a b using Cons.IH by auto
  next
    case False
    then have eq: "predicate_triples (n # ns) ic ise = [?A] @ predicate_triples ns ic ise"
      by auto
    show ?thesis unfolding eq spans_added_append a using Cons.IH by auto
  qed
qed

lemma predicate_bag_spans:
  "\<forall>n \<in> set ns. CHR '' '' \<notin> set (concept n) \<and> CHR '' '' \<notin> set (constant_val n) \<Longrightarrow>
   spans_added (predicate_bag ns ic) = []"
proof (induction ns)
  case Nil
  then show ?case by simp
next
  case (Cons n ns)
  then have a: "spans_added [concept n] = []" and b: "spans_added [constant_val n] = []"
    by (simp_all add: spans_bare del: spans_added.simps)
  have r: "spans_added (predicate_bag ns ic) = []" using Cons by simp
  show ?case
  proof (cases "ic \<and> constant_val n \<noteq> []")
    case True
    then have eq: "predicate_bag (n # ns) ic = [concept n] @ [constant_val n] @ predicate_bag ns ic"
      by simp
    show ?thesis unfolding eq spans_added_append a b r by simp
  next
    case False
    then have eq: "predicate_bag (n # ns) ic = [concept n] @ predicate_bag ns ic"
      by auto
    show ?thesis unfolding eq spans_added_append a r by simp
  qed
qed

lemma top_triples_spans:
  "set (spans_added (top_triples ns ise)) \<subseteq> insert ''-1:-1'' ((\<lambda>n. span_str n ise) ` set ns)"
proof (induction ns)
  case Nil
  then show ?case by simp
next
  case (Cons n ns)
  have "set (spans_added [''-1:-1'' @ '' '' @ ''/H'' @ '' '' @ span_str n ise])
        \<subseteq> {''-1:-1'', span_str n ise}"
    by (rule spans_relation) simp_all
  then have a: "set (spans_added [''-1:-1 /H '' @ span_str n ise]) \<subseteq> {''-1:-1'', span_str n ise}"
    by (simp del: spans_added.simps)
  show ?case
  proof (cases "top_flag n")
    case True
    then have eq: "top_triples (n # ns) ise = [''-1:-1 /H '' @ span_str n ise] @ top_triples ns ise"
      by simp
    show ?thesis unfolding eq spans_added_append set_append using a Cons.IH by auto
  next
    case False
    then have eq: "top_triples (n # ns) ise = top_triples ns ise" by simp
    show ?thesis unfolding eq using Cons.IH by auto
  qed
qed

lemma edge_triples_shape:
  "edge_triples ns ise lbl node es ni ts = Inr ts' \<Longrightarrow>
   ni \<in> (\<lambda>n. span_str n ise) ` set ns \<Longrightarrow>
   lbl \<longrightarrow> (\<forall>r \<in> set (relations node). CHR '' '' \<notin> set r) \<Longrightarrow>
   \<exists>new. ts' = ts @ new \<and>
     set (spans_added new) \<subseteq> (\<lambda>n. span_str n ise) ` set ns"
proof (induction es arbitrary: ni ts)
  case Nil
  then show ?case by simp
next
  case (Cons e rest)
  let ?S = "(\<lambda>n. span_str n ise) ` set ns"
  obtain k c where e: "e = (k, c)" by (cases e) auto
  from Cons.prems(1) have c: "c < length ns" and k: "k < length (relations node)"
    unfolding e by (auto split: if_splits)
  then have ch: "span_str (ns ! c) ise \<in> ?S" by simp
  let ?rel = "if lbl then relations node ! k else ''REL''"
  let ?rel' = "if ?rel = ''/EQ'' then ''/EQ/U'' else ?rel"
  have rel: "CHR '' '' \<notin> set ?rel'" using Cons.prems(3) nth_mem[OF k] by auto
  from Cons.prems(1) c k ch Cons.prems(2) obtain ni' ci' where
    rec: "edge_triples ns ise lbl node rest ni' (ts @ [ni' @ '' '' @ ?rel' @ '' '' @ ci']) = Inr ts'"
    and ni': "ni' \<in> ?S" and ci': "ci' \<in> ?S"
    unfolding e by (auto simp: Let_def split: if_splits)
  from Cons.IH[OF rec ni' Cons.prems(3)] obtain new where
    n: "ts' = (ts @ [ni' @ '' '' @ ?rel' @ '' '' @ ci']) @ new"
    and f: "set (spans_added new) \<subseteq> ?S" by blast
  from ni' ci' have "CHR '' '' \<notin> set ni'" "CHR '' '' \<notin> set ci'" by auto
  from spans_relation[OF this(1) rel this(2)] ni' ci'
  have "set (spans_added [ni' @ '' '' @ ?rel' @ '' '' @ ci']) \<subseteq> ?S" by blast
  with f have "set (spans_added ([ni' @ '' '' @ ?rel' @ '' '' @ ci'] @ new)) \<subseteq> ?S"
    by (simp only: spans_added_append set_append) simp
  with n show ?case by (intro exI[of _ "[ni' @ '' '' @ ?rel' @ '' '' @ ci'] @ new"]) simp
qed

lemma node_edge_triples_shape:
  "node_edge_triples ns ise lbl todo ts = Inr ts' \<Longrightarrow> set todo \<subseteq> set ns \<Longrightarrow>
   lbl \<longrightarrow> (\<forall>node \<in> set todo. \<forall>r \<in> set (relations node). CHR '' '' \<notin> set r) \<Longrightarrow>
   \<exists>new. ts' = ts @ new \<and> set (spans_added new) \<subseteq> (\<lambda>n. span_str n ise) ` set ns"
proof (induction todo arbitrary: ts)
  case Nil
  then show ?case by simp
next
  case (Cons node todo)
  let ?S = "(\<lambda>n. span_str n ise) ` set ns"
  from Cons.prems(1) obtain ts1 where
    e: "edge_triples ns ise lbl node (enumerate 0 (edges node)) (span_str node ise) ts = Inr ts1"
    and r: "node_edge_triples ns ise lbl todo ts1 = Inr ts'"
    by (auto split: sum.splits)
  have "span_str node ise \<in> ?S" using Cons.prems(2) by auto
  moreover have "lbl \<longrightarrow> (\<forall>r \<in> set (relations node). CHR '' '' \<notin> set r)"
    using Cons.prems(3) by simp
  ultimately obtain new1 where n1: "ts1 = ts @ new1" and f1: "set (spans_added new1) \<subseteq> ?S"
    using edge_triples_shape[OF e] by blast
  from Cons.IH[OF r] Cons.prems(2,3) obtain new2 where n2: "ts' = ts1 @ new2"
    and f2: "set (spans_added new2) \<subseteq> ?S" by auto
  from f1 f2 have "set (spans_added (new1 @ new2)) \<subseteq> ?S"
    by (simp only: spans_added_append set_append) simp
  with n1 n2 show ?case by (intro exI[of _ "new1 @ new2"]) simp
qed

text \<open>Every span that \<^verbatim>\<open>list_spans\<close> finds in the triples of a space-free graph is the
  span string of a node, or the span of the root marker.\<close>

lemma eds_triples_spans:
  assumes "space_free cfg g" and "eds_triples g cfg = Inr ts"
  shows "set (spans_added ts)
         \<subseteq> insert ''-1:-1'' ((\<lambda>n. span_str n (include_span_ends cfg)) ` set (nodes g))"
proof -
  let ?ise = "include_span_ends cfg"
  let ?S = "insert ''-1:-1'' ((\<lambda>n. span_str n ?ise) ` set (nodes g))"
  let ?t1 = "if score_predicates cfg then
               (if include_predicate_spans cfg
                then predicate_triples (nodes g) (include_constants cfg) ?ise
                else predicate_bag (nodes g) (include_constants cfg))
             else []"
  have p: "set (spans_added ?t1) \<subseteq> ?S"
  proof -
    have "\<not> include_predicate_spans cfg \<Longrightarrow>
        spans_added (predicate_bag (nodes g) (include_constants cfg)) = []"
      using assms(1) by (intro predicate_bag_spans) (simp add: space_free_def)
    then show ?thesis
      using predicate_triples_spans[of "nodes g" "include_constants cfg" ?ise] by auto
  qed
  show ?thesis
  proof (cases "score_relations cfg")
    case False
    with assms(2) have "ts = ?t1" by (simp add: eds_triples_def Let_def)
    with p show ?thesis by simp
  next
    case True
    with assms(2) obtain rs where rs: "relation_triples g ?ise (labeled cfg) = Inr rs"
      and ts: "ts = ?t1 @ rs"
      by (auto simp: eds_triples_def Let_def split: sum.splits)
    from rs have "node_edge_triples (nodes g) ?ise (labeled cfg) (nodes g)
        (top_triples (nodes g) ?ise) = Inr rs" by (simp add: relation_triples_def)
    moreover have "labeled cfg \<longrightarrow>
        (\<forall>node \<in> set (nodes g). \<forall>r \<in> set (relations node). CHR '' '' \<notin> set r)"
      using assms(1) by (simp add: space_free_def)
    ultimately obtain new where n: "rs = top_triples (nodes g) ?ise @ new"
      and f: "set (spans_added new) \<subseteq> (\<lambda>n. span_str n ?ise) ` set (nodes g)"
      using node_edge_triples_shape[of "nodes g" ?ise "labeled cfg" "nodes g"] by blast
    from top_triples_spans[of "nodes g" ?ise] f p show ?thesis
      unfolding ts n by (simp only: spans_added_append set_append) auto
  qed
qed

lemma root_span: "''-1:-1'' = str_int (- 1) @ '':'' @ str_int (- 1)"
  by (simp add: str_eval)

lemma graph_span_form:
  assumes "s \<in> insert ''-1:-1'' ((\<lambda>n. span_str n ise) ` set ns)"
  shows "\<exists>a b. s = str_int a @ '':'' @ str_int b \<and> (\<not> ise \<longrightarrow> a = b)"
proof (cases "s = ''-1:-1''")
  case True
  with root_span show ?thesis by blast
next
  case False
  with assms obtain n where s: "s = span_str n ise" by auto
  show ?thesis
  proof (cases ise)
    case True
    with s have "s = str_int (start n) @ '':'' @ str_int (endpos n)" by (simp add: span_str_def)
    with True show ?thesis by blast
  next
    case False
    with s have "s = str_int (start n) @ '':'' @ str_int (start n)" by (simp add: span_str_def)
    then show ?thesis by blast
  qed
qed

section \<open>The reconciler on equal triples and on start spans\<close>

lemma reconcile_id:
  assumes ok: "set_list_ok sl"
    and sh: "\<forall>s \<in> set (spans_added pt). \<exists>r. shift_end 1 s = Inr r"
    and no: "\<forall>s \<in> set (spans_added pt). \<forall>d r. shift_end d s = Inr r \<longrightarrow>
               s \<in> set (spans_added gt) \<or> r \<notin> set (spans_added gt)"
  shows "reconcile sl gt pt = Inr pt"
proof -
  let ?ps = "list_spans sl pt"
  let ?gs = "set (list_spans sl gt)"
  have ps: "set ?ps = set (spans_added pt)" and gs: "?gs = set (spans_added gt)"
    using ok by (simp_all add: set_list_ok_def list_spans_def)
  have "\<forall>s \<in> set ?ps. \<exists>r. shift_end 1 s = Inr r" using sh ps by simp
  from map_result_ok[OF this] obtain new1 where n1: "inc_end_spans ?ps = Inr new1"
    and l1: "length new1 = length ?ps" by (auto simp: inc_end_spans_def)
  have "\<forall>s \<in> set ?ps. \<exists>r. shift_end (- 1) s = Inr r" using sh ps shift_end_both by blast
  from map_result_ok[OF this] obtain new2 where n2: "dec_end_spans ?ps = Inr new2"
    and l2: "length new2 = length ?ps" by (auto simp: dec_end_spans_def)
  have id: "shift_pass ?gs ?ps new ts = ts"
    if m: "map_result (shift_end d) ?ps = Inr new" for d new ts
  proof (rule shift_pass_id, rule ballI)
    fix p assume "p \<in> set (zip ?ps new)"
    then obtain i where i: "i < length ?ps" and p: "p = (?ps ! i, new ! i)"
      by (auto simp: in_set_zip)
    from map_result_nth[OF m i] have "shift_end d (?ps ! i) = Inr (new ! i)" .
    moreover have "?ps ! i \<in> set (spans_added pt)" using i ps nth_mem by blast
    ultimately have "?ps ! i \<in> set (spans_added gt) \<or> new ! i \<notin> set (spans_added gt)"
      using no by blast
    then show "\<not> (fst p \<notin> ?gs \<and> snd p \<in> ?gs)" unfolding p gs by auto
  qed
  from n1 n2 have "reconcile sl gt pt
      = Inr (shift_pass ?gs ?ps new2 (shift_pass ?gs ?ps new1 pt))"
    by (simp add: reconcile_passes)
  also have "\<dots> = Inr pt"
    using id[OF n1[unfolded inc_end_spans_def]] id[OF n2[unfolded dec_end_spans_def]] by simp
  finally show ?thesis .
qed

lemma start_span_shift_not_start_span:
  assumes "s = str_int a @ '':'' @ str_int a" and "shift_end d s = Inr r" and "d \<noteq> 0"
  shows "\<not> (\<exists>b. r = str_int b @ '':'' @ str_int b)"
proof
  assume "\<exists>b. r = str_int b @ '':'' @ str_int b"
  then obtain b where b: "r = str_int b @ '':'' @ str_int b" by blast
  from assms(1,2) have "r = str_int a @ '':'' @ str_int (a + d)"
    by (simp only: shift_end_span) simp
  with b have "str_int a @ '':'' @ str_int (a + d) = str_int b @ '':'' @ str_int b" by simp
  from span_eq[OF this] assms(3) show False by simp
qed

lemma item_triples_start_spans:
  assumes "\<not> include_span_ends cfg"
    and "item_triples predicted_graphs cfg item = Inr (gt, pt)"
    and "space_free cfg (snd item)"
    and "\<forall>pg. predicted_graphs (fst item) = Some pg \<longrightarrow> space_free cfg pg"
  shows "\<forall>s \<in> set (spans_added gt) \<union> set (spans_added pt). \<exists>a. s = str_int a @ '':'' @ str_int a"
proof -
  have form: "\<exists>a. s = str_int a @ '':'' @ str_int a"
    if "space_free cfg g" "eds_triples g cfg = Inr ts" "s \<in> set (spans_added ts)" for g ts s
  proof -
    from eds_triples_spans[OF that(1,2)] that(3)
    have "s \<in> insert ''-1:-1'' ((\<lambda>n. span_str n (include_span_ends cfg)) ` set (nodes g))"
      by blast
    from graph_span_form[OF this] assms(1) show ?thesis by auto
  qed
  from assms(2) obtain gts where g: "eds_triples (snd item) cfg = Inr gts"
    by (auto simp: item_triples_def split: sum.splits)
  show ?thesis
  proof (cases "predicted_graphs (fst item)")
    case None
    with assms(2) g have "pt = []" "gt = gts \<or> gt = []"
      by (auto simp: item_triples_def split: if_splits)
    then show ?thesis using form[OF assms(3) g] by auto
  next
    case (Some pg)
    with assms(2) g have p: "eds_triples pg cfg = Inr pt" and "gt = gts"
      by (auto simp: item_triples_def split: sum.splits)
    moreover from Some assms(4) have "space_free cfg pg" by simp
    ultimately show ?thesis using form[OF assms(3) g] form[OF _ p] by auto
  qed
qed

text \<open>
  Claim C9, as the code has it. With \<open>include_span_ends = False\<close> and space-free graphs
  every span found in the gold and in the predicted triples has the form \<open>s:s\<close>, a span with
  its end shifted has not, so no shifted span is a gold span and the reconciler returns
  the predicted triples unchanged.
\<close>

theorem start_spans_never_rewritten:
  assumes "set_list_ok set_list" and "\<not> include_span_ends cfg"
    and "item_triples predicted_graphs cfg item = Inr (gold_triples, predicted_triples)"
    and "space_free cfg (snd item)"
    and "\<forall>pg. predicted_graphs (fst item) = Some pg \<longrightarrow> space_free cfg pg"
  shows "reconcile set_list gold_triples predicted_triples = Inr predicted_triples
    \<and> (\<forall>s \<in> set (list_spans set_list predicted_triples). \<forall>d r.
          d \<noteq> 0 \<and> shift_end d s = Inr r \<longrightarrow> r \<notin> set (list_spans set_list gold_triples))"
proof -
  let ?G = "set (spans_added gold_triples)" and ?P = "set (spans_added predicted_triples)"
  from item_triples_start_spans[OF assms(2,3,4,5)]
  have G: "\<forall>s \<in> ?G. \<exists>a. s = str_int a @ '':'' @ str_int a"
    and P: "\<forall>s \<in> ?P. \<exists>a. s = str_int a @ '':'' @ str_int a" by auto
  have never: "r \<notin> ?G" if "s \<in> ?P" "d \<noteq> 0" "shift_end d s = Inr r" for s d r
  proof -
    from P that(1) obtain a where "s = str_int a @ '':'' @ str_int a" by blast
    from start_span_shift_not_start_span[OF this that(3,2)] G show ?thesis by blast
  qed
  have sh: "\<forall>s \<in> ?P. \<exists>r. shift_end 1 s = Inr r"
  proof
    fix s assume "s \<in> ?P"
    with P obtain a where "s = str_int a @ '':'' @ str_int a" by blast
    then show "\<exists>r. shift_end 1 s = Inr r" by (simp only: shift_end_span) simp
  qed
  have no: "\<forall>s \<in> ?P. \<forall>d r. shift_end d s = Inr r \<longrightarrow> s \<in> ?G \<or> r \<notin> ?G"
  proof (intro ballI allI impI)
    fix s d r assume s: "s \<in> ?P" and r: "shift_end d s = Inr r"
    show "s \<in> ?G \<or> r \<notin> ?G"
    proof (cases "d = 0")
      case True
      from P s obtain a where "s = str_int a @ '':'' @ str_int a" by blast
      with r True have "r = s" by (simp only: shift_end_span) simp
      then show ?thesis by auto
    next
      case False
      from never[OF s False r] show ?thesis by simp
    qed
  qed
  have "reconcile set_list gold_triples predicted_triples = Inr predicted_triples"
    using reconcile_id[OF assms(1) sh no] .
  moreover have "\<forall>s \<in> set (list_spans set_list predicted_triples). \<forall>d r.
          d \<noteq> 0 \<and> shift_end d s = Inr r \<longrightarrow> r \<notin> set (list_spans set_list gold_triples)"
    using never assms(1) by (auto simp: set_list_ok_def list_spans_def)
  ultimately show ?thesis by blast
qed

lemmas int_eval = py_int_def py_strip_def is_space_def parse_decimal_def digit_val_def upt_rec

text \<open>
  Claim C9, as stated, fails: the split of a triple at spaces takes the second word of a
  label for a span. Here the gold label \<open>x 7:8\<close> puts \<open>7:8\<close> among the gold spans, and the
  predicted span \<open>7:7\<close> is rewritten to it although \<open>include_span_ends\<close> is false.
\<close>

theorem start_spans_rewritten_counterexample:
  "\<not> include_span_ends start_config
   \<and> eds_triples span_label_graph start_config
       = Inr [''0:0 NAME a'', ''2:2 NAME b'', ''0:0 x 7:8 2:2'']
   \<and> eds_triples start_seven_graph start_config = Inr [''7:7 NAME p'']
   \<and> reconcile remdups [''0:0 NAME a'', ''2:2 NAME b'', ''0:0 x 7:8 2:2''] [''7:7 NAME p'']
       = Inr [''7:8 NAME p'']"
  by (simp add: start_config_def full_config_def span_label_graph_def start_seven_graph_def
      eds_triples_def relation_triples_def span_str_def enumerate_simps str_eval
      reconcile_def list_spans_def inc_end_spans_def dec_end_spans_def shift_end_def int_eval
      py_replace_def py_replace_ne.simps)

theorem start_spans_never_rewritten_witness:
  "set_list_ok remdups \<and> \<not> include_span_ends start_config
   \<and> item_triples [1 \<mapsto> start_seven_graph] start_config (1, eq_reversed_graph)
       = Inr ([''5:5 NAME a'', ''3:3 NAME b'', ''1:1 NAME c'', ''-1:-1 /H 5:5'',
               ''1:1 /EQ/U 5:5'', ''3:3 /EQ/U 5:5''], [''7:7 NAME p''])
   \<and> space_free start_config eq_reversed_graph \<and> space_free start_config start_seven_graph
   \<and> reconcile remdups [''5:5 NAME a'', ''3:3 NAME b'', ''1:1 NAME c'', ''-1:-1 /H 5:5'',
               ''1:1 /EQ/U 5:5'', ''3:3 /EQ/U 5:5''] [''7:7 NAME p''] = Inr [''7:7 NAME p'']"
proof -
  have a: "set_list_ok remdups" by (simp add: set_list_ok_def)
  have b: "\<not> include_span_ends start_config" by (simp add: start_config_def)
  have c: "item_triples [1 \<mapsto> start_seven_graph] start_config (1, eq_reversed_graph)
       = Inr ([''5:5 NAME a'', ''3:3 NAME b'', ''1:1 NAME c'', ''-1:-1 /H 5:5'',
               ''1:1 /EQ/U 5:5'', ''3:3 /EQ/U 5:5''], [''7:7 NAME p''])"
    by (simp add: item_triples_def start_config_def full_config_def eq_reversed_graph_def
        start_seven_graph_def eds_triples_def relation_triples_def span_str_def
        enumerate_simps str_eval)
  have d: "space_free start_config (snd (1::int, eq_reversed_graph))"
    by (simp add: space_free_def start_config_def full_config_def eq_reversed_graph_def)
  have e: "space_free start_config start_seven_graph"
    by (simp add: space_free_def start_config_def full_config_def start_seven_graph_def)
  then have e': "\<forall>pg. [1 \<mapsto> start_seven_graph] (fst (1::int, eq_reversed_graph)) = Some pg
      \<longrightarrow> space_free start_config pg" by simp
  from start_spans_never_rewritten [OF a b c d e'] a b c d e show ?thesis by simp
qed







section \<open>What a scorer call writes\<close>

lemma extends_refl: "extends s s"
  by (simp add: extends_def)

lemma extends_trans: "extends s s1 \<Longrightarrow> extends s1 s2 \<Longrightarrow> extends s s2"
proof -
  assume a: "extends s s1" and b: "extends s1 s2"
  from a b have l: "length (list_heap s) \<le> length (list_heap s1)"
    "length (list_heap s1) \<le> length (list_heap s2)" by (simp_all add: extends_def)
  from a have t1: "take (length (list_heap s)) (list_heap s1) = list_heap s"
    by (simp add: extends_def)
  from b have t2: "take (length (list_heap s1)) (list_heap s2) = list_heap s1"
    by (simp add: extends_def)
  have "take (length (list_heap s)) (list_heap s2)
      = take (length (list_heap s)) (take (length (list_heap s1)) (list_heap s2))"
    using l by (simp add: min_def)
  with t1 t2 have "take (length (list_heap s)) (list_heap s2) = list_heap s" by simp
  with a b l show ?thesis by (simp add: extends_def)
qed

lemma extends_append: "extends s (s\<lparr>list_heap := list_heap s @ new\<rparr>)"
  by (simp add: extends_def)

lemma extends_update:
  "length (list_heap s) \<le> a \<Longrightarrow> extends s (s\<lparr>list_heap := (list_heap s @ new)[a := L]\<rparr>)"
  by (simp add: extends_def)

lemma update_step:
  assumes "k < length xs"
  shows "(map f (take k xs) @ drop k xs)[k := f ((map f (take k xs) @ drop k xs) ! k)]
         = map f (take (Suc k) xs) @ drop (Suc k) xs"
proof -
  from assms have d: "drop k xs = xs ! k # drop (Suc k) xs" by (simp add: Cons_nth_drop_Suc)
  from assms have t: "take (Suc k) xs = take k xs @ [xs ! k]" by (simp add: take_Suc_conv_app_nth)
  from assms have l: "length (map f (take k xs)) = k" by simp
  have n: "(map f (take k xs) @ drop k xs) ! k = xs ! k"
    using l d by (metis nth_append_length)
  show ?thesis unfolding n using l d t by (simp add: list_update_append)
qed

lemma replace_fold:
  assumes "a < length (list_heap s)" and "k \<le> length (list_heap s ! a)"
  shows "fold (\<lambda>j s'. set_item a j (f (get_list s' a ! j)) s') [0 ..< k] s
         = s\<lparr>list_heap := (list_heap s)[a := map f (take k (list_heap s ! a)) @ drop k (list_heap s ! a)]\<rparr>"
  using assms(2)
proof (induction k)
  case 0
  then show ?case by simp
next
  case (Suc k)
  let ?xs = "list_heap s ! a"
  let ?L = "map f (take k ?xs) @ drop k ?xs"
  let ?sk = "s\<lparr>list_heap := (list_heap s)[a := ?L]\<rparr>"
  from Suc have k: "k < length ?xs" by simp
  have g: "get_list ?sk a = ?L" using assms(1) by (simp add: get_list_def)
  have "fold (\<lambda>j s'. set_item a j (f (get_list s' a ! j)) s') [0 ..< Suc k] s
        = set_item a k (f (get_list ?sk a ! k)) ?sk"
    using Suc by simp
  also have "\<dots> = s\<lparr>list_heap := (list_heap s)[a := ?L[k := f (?L ! k)]]\<rparr>"
    unfolding g by (simp add: set_item_def g)
  also have "?L[k := f (?L ! k)] = map f (take (Suc k) ?xs) @ drop (Suc k) ?xs"
    using k by (rule update_step)
  finally show ?case .
qed

lemma replace_in_place_map:
  assumes "a < length (list_heap s)"
  shows "replace_in_place a old new s
         = s\<lparr>list_heap := (list_heap s)[a := map (\<lambda>t. py_replace t old new) (list_heap s ! a)]\<rparr>"
  using replace_fold[OF assms, of "length (list_heap s ! a)" "\<lambda>t. py_replace t old new"] assms
  by (simp add: replace_in_place_def get_list_def)

lemma replace_new_spans_st_pure:
  assumes "a < length (list_heap s)"
  shows "\<exists>L. replace_new_spans_st gs ps a es s
           = ((case replace_new_spans gs ps es (list_heap s ! a) of Inl e \<Rightarrow> Inl e | Inr r \<Rightarrow> Inr ()),
              s\<lparr>list_heap := (list_heap s)[a := L]\<rparr>)
         \<and> (\<forall>r. replace_new_spans gs ps es (list_heap s ! a) = Inr r \<longrightarrow> L = r)"
  using assms
proof (induction es arbitrary: s)
  case Nil
  have "s = s\<lparr>list_heap := (list_heap s)[a := list_heap s ! a]\<rparr>" by simp
  then show ?case by (intro exI[of _ "list_heap s ! a"]) simp
next
  case (Cons e es)
  obtain i new where e: "e = (i, new)" by (cases e) auto
  show ?case
  proof (cases "length ps \<le> i")
    case True
    have "s = s\<lparr>list_heap := (list_heap s)[a := list_heap s ! a]\<rparr>" by simp
    with True show ?thesis unfolding e by (intro exI[of _ "list_heap s ! a"]) simp
  next
    case False
    show ?thesis
    proof (cases "ps ! i \<notin> gs \<and> new \<in> gs")
      case True
      let ?M = "map (\<lambda>t. py_replace t (ps ! i) new) (list_heap s ! a)"
      let ?s1 = "s\<lparr>list_heap := (list_heap s)[a := ?M]\<rparr>"
      have r: "replace_in_place a (ps ! i) new s = ?s1"
        using Cons.prems by (rule replace_in_place_map)
      have a1: "a < length (list_heap ?s1)" using Cons.prems by simp
      have h1: "list_heap ?s1 ! a = ?M" using Cons.prems by simp
      from Cons.IH[OF a1] obtain L where
        L: "replace_new_spans_st gs ps a es ?s1
           = ((case replace_new_spans gs ps es ?M of Inl e \<Rightarrow> Inl e | Inr r \<Rightarrow> Inr ()),
              ?s1\<lparr>list_heap := (list_heap ?s1)[a := L]\<rparr>)"
        and LR: "\<forall>r. replace_new_spans gs ps es ?M = Inr r \<longrightarrow> L = r"
        unfolding h1 by blast
      have "?s1\<lparr>list_heap := (list_heap ?s1)[a := L]\<rparr> = s\<lparr>list_heap := (list_heap s)[a := L]\<rparr>"
        by simp
      with L LR True False r show ?thesis unfolding e
        by (intro exI[of _ L]) (simp add: Let_def)
    next
      case other: False
      from Cons.IH[OF Cons.prems] obtain L where
        "replace_new_spans_st gs ps a es s
           = ((case replace_new_spans gs ps es (list_heap s ! a) of Inl e \<Rightarrow> Inl e | Inr r \<Rightarrow> Inr ()),
              s\<lparr>list_heap := (list_heap s)[a := L]\<rparr>)"
        "\<forall>r. replace_new_spans gs ps es (list_heap s ! a) = Inr r \<longrightarrow> L = r" by blast
      with other False show ?thesis unfolding e
        by (intro exI[of _ L]) (auto simp: Let_def)
    qed
  qed
qed

lemma item_triples_st_pure:
  "\<exists>new. snd (item_triples_st cfg item s) = s\<lparr>list_heap := list_heap s @ new\<rparr> \<and>
     (case item_triples (predicted_corpus s) cfg item of
        Inl e \<Rightarrow> fst (item_triples_st cfg item s) = Inl e
      | Inr (gt, pt) \<Rightarrow>
          (\<exists>ga pa. fst (item_triples_st cfg item s) = Inr (ga, pa) \<and> ga \<noteq> pa \<and>
             length (list_heap s) \<le> ga \<and> length (list_heap s) \<le> pa \<and>
             ga < length (list_heap s) + length new \<and> pa < length (list_heap s) + length new \<and>
             (list_heap s @ new) ! ga = gt \<and> (list_heap s @ new) ! pa = pt))"
proof (cases "eds_triples (snd item) cfg")
  case (Inl e)
  then show ?thesis
    by (intro exI[of _ "[]"]) (simp add: item_triples_st_def eds_triples_st_def item_triples_def)
next
  case (Inr gts)
  let ?H = "list_heap s"
  show ?thesis
  proof (cases "predicted_corpus s (fst item)")
    case None
    show ?thesis
    proof (cases "score_nones cfg")
      case True
      with Inr None show ?thesis
        by (intro exI[of _ "[gts, []]"])
           (simp add: item_triples_st_def eds_triples_st_def item_triples_def new_list_def
             nth_append)
    next
      case False
      with Inr None show ?thesis
        by (intro exI[of _ "[gts, [], []]"])
           (simp add: item_triples_st_def eds_triples_st_def item_triples_def new_list_def
             nth_append)
    qed
  next
    case (Some pg)
    show ?thesis
    proof (cases "eds_triples pg cfg")
      case e: (Inl e)
      with Inr Some show ?thesis
        by (intro exI[of _ "[gts]"])
           (simp add: item_triples_st_def eds_triples_st_def item_triples_def new_list_def)
    next
      case p: (Inr pts)
      with Inr Some show ?thesis
        by (intro exI[of _ "[gts, pts]"])
           (simp add: item_triples_st_def eds_triples_st_def item_triples_def new_list_def
             nth_append)
    qed
  qed
qed

lemma reconcile_st_pure:
  assumes pa: "pa < length (list_heap s)" and ne: "ga \<noteq> pa"
  shows "\<exists>L. reconcile_st sl ga pa s
           = ((case reconcile sl (get_list s ga) (get_list s pa) of
                 Inl e \<Rightarrow> Inl e | Inr r \<Rightarrow> Inr ()),
              s\<lparr>list_heap := (list_heap s)[pa := L]\<rparr>)
         \<and> (\<forall>r. reconcile sl (get_list s ga) (get_list s pa) = Inr r \<longrightarrow> L = r)"
proof -
  let ?gs = "set (list_spans sl (get_list s ga))"
  let ?ps = "list_spans sl (get_list s pa)"
  have same: "s = s\<lparr>list_heap := (list_heap s)[pa := list_heap s ! pa]\<rparr>" by simp
  have gp: "get_list s pa = list_heap s ! pa" using pa by (simp add: get_list_def)
  show ?thesis
  proof (cases "inc_end_spans ?ps")
    case (Inl e)
    with same show ?thesis
      by (intro exI[of _ "list_heap s ! pa"]) (simp add: reconcile_st_def reconcile_def)
  next
    case (Inr new1)
    from replace_new_spans_st_pure[OF pa, of ?gs ?ps "enumerate 0 new1"] obtain L1 where
      st1: "replace_new_spans_st ?gs ?ps pa (enumerate 0 new1) s
           = ((case replace_new_spans ?gs ?ps (enumerate 0 new1) (list_heap s ! pa) of
                 Inl e \<Rightarrow> Inl e | Inr r \<Rightarrow> Inr ()),
              s\<lparr>list_heap := (list_heap s)[pa := L1]\<rparr>)"
      and r1: "\<forall>r. replace_new_spans ?gs ?ps (enumerate 0 new1) (list_heap s ! pa) = Inr r
                \<longrightarrow> L1 = r" by blast
    let ?s1 = "s\<lparr>list_heap := (list_heap s)[pa := L1]\<rparr>"
    show ?thesis
    proof (cases "replace_new_spans ?gs ?ps (enumerate 0 new1) (list_heap s ! pa)")
      case e1: (Inl e)
      with Inr st1 show ?thesis
        by (intro exI[of _ L1]) (simp add: reconcile_st_def reconcile_def gp)
    next
      case t1: (Inr triples1)
      with r1 have L1: "L1 = triples1" by simp
      show ?thesis
      proof (cases "dec_end_spans ?ps")
        case e2: (Inl e)
        with Inr st1 t1 show ?thesis
          by (intro exI[of _ L1]) (simp add: reconcile_st_def reconcile_def gp)
      next
        case n2: (Inr new2)
        have pa1: "pa < length (list_heap ?s1)" using pa by simp
        have h1: "list_heap ?s1 ! pa = triples1" using pa L1 by simp
        from replace_new_spans_st_pure[OF pa1, of ?gs ?ps "enumerate 0 new2"] obtain L2 where
          st2: "replace_new_spans_st ?gs ?ps pa (enumerate 0 new2) ?s1
             = ((case replace_new_spans ?gs ?ps (enumerate 0 new2) triples1 of
                   Inl e \<Rightarrow> Inl e | Inr r \<Rightarrow> Inr ()),
                ?s1\<lparr>list_heap := (list_heap ?s1)[pa := L2]\<rparr>)"
          and r2: "\<forall>r. replace_new_spans ?gs ?ps (enumerate 0 new2) triples1 = Inr r \<longrightarrow> L2 = r"
          unfolding h1 by blast
        have "?s1\<lparr>list_heap := (list_heap ?s1)[pa := L2]\<rparr>
            = s\<lparr>list_heap := (list_heap s)[pa := L2]\<rparr>" by simp
        with st2 r2 Inr st1 t1 n2 show ?thesis
          by (intro exI[of _ L2]) (simp add: reconcile_st_def reconcile_def gp)
      qed
    qed
  qed
qed

lemma score_item_st_pure:
  "\<exists>s'. score_item_st sl cfg item s = (score_item sl (predicted_corpus s) cfg item, s')
        \<and> extends s s'"
proof -
  let ?H = "list_heap s"
  from item_triples_st_pure[of cfg item s] obtain new where
    sn: "snd (item_triples_st cfg item s) = s\<lparr>list_heap := ?H @ new\<rparr>"
    and c: "case item_triples (predicted_corpus s) cfg item of
        Inl e \<Rightarrow> fst (item_triples_st cfg item s) = Inl e
      | Inr (gt, pt) \<Rightarrow>
          (\<exists>ga pa. fst (item_triples_st cfg item s) = Inr (ga, pa) \<and> ga \<noteq> pa \<and>
             length ?H \<le> ga \<and> length ?H \<le> pa \<and>
             ga < length ?H + length new \<and> pa < length ?H + length new \<and>
             (?H @ new) ! ga = gt \<and> (?H @ new) ! pa = pt)" by blast
  let ?s1 = "s\<lparr>list_heap := ?H @ new\<rparr>"
  show ?thesis
  proof (cases "item_triples (predicted_corpus s) cfg item")
    case (Inl e)
    with c have "fst (item_triples_st cfg item s) = Inl e" by simp
    with sn have "item_triples_st cfg item s = (Inl e, ?s1)" by (metis prod.collapse)
    with Inl show ?thesis
      by (intro exI[of _ ?s1]) (simp add: score_item_st_def score_item_def extends_append)
  next
    case (Inr gp)
    obtain gt pt where gp: "gp = (gt, pt)" by (cases gp) auto
    from c Inr gp obtain ga pa where f: "fst (item_triples_st cfg item s) = Inr (ga, pa)"
      and ne: "ga \<noteq> pa" and lo: "length ?H \<le> pa"
      and hi: "ga < length ?H + length new" "pa < length ?H + length new"
      and g: "(?H @ new) ! ga = gt" and p: "(?H @ new) ! pa = pt" by auto
    from f sn have it: "item_triples_st cfg item s = (Inr (ga, pa), ?s1)" by (metis prod.collapse)
    have pa1: "pa < length (list_heap ?s1)" using hi by simp
    have gg: "get_list ?s1 ga = gt" and gpp: "get_list ?s1 pa = pt"
      using hi g p by (simp_all add: get_list_def)
    from reconcile_st_pure[OF pa1 ne, of sl] obtain L where
      rc: "reconcile_st sl ga pa ?s1
           = ((case reconcile sl gt pt of Inl e \<Rightarrow> Inl e | Inr r \<Rightarrow> Inr ()),
              ?s1\<lparr>list_heap := (list_heap ?s1)[pa := L]\<rparr>)"
      and LR: "\<forall>r. reconcile sl gt pt = Inr r \<longrightarrow> L = r"
      unfolding gg gpp by blast
    let ?s2 = "s\<lparr>list_heap := (?H @ new)[pa := L]\<rparr>"
    have s2: "?s1\<lparr>list_heap := (list_heap ?s1)[pa := L]\<rparr> = ?s2" by simp
    have ext: "extends s ?s2" using lo by (rule extends_update)
    show ?thesis
    proof (cases "reconcile sl gt pt")
      case e: (Inl e)
      with it rc s2 Inr gp ext show ?thesis
        by (intro exI[of _ ?s2]) (simp add: score_item_st_def score_item_def)
    next
      case r: (Inr pt')
      with LR have L: "L = pt'" by simp
      have g2: "get_list ?s2 ga = gt" using hi g ne by (simp add: get_list_def)
      have p2: "get_list ?s2 pa = pt'" using hi L by (simp add: get_list_def)
      from it rc s2 Inr gp r g2 p2 ext show ?thesis
        by (intro exI[of _ ?s2]) (simp add: score_item_st_def score_item_def Let_def)
    qed
  qed
qed

lemma score_items_st_pure:
  "\<exists>s'. score_items_st sl cfg items tot s = (score_items sl (predicted_corpus s) cfg items tot, s')
        \<and> extends s s'"
proof (induction items arbitrary: tot s)
  case Nil
  then show ?case by (simp add: extends_refl)
next
  case (Cons item items)
  obtain a b c where tot: "tot = (a, b, c)" by (cases tot) auto
  from score_item_st_pure[of sl cfg item s] obtain s1 where
    si: "score_item_st sl cfg item s = (score_item sl (predicted_corpus s) cfg item, s1)"
    and e1: "extends s s1" by blast
  show ?case
  proof (cases "score_item sl (predicted_corpus s) cfg item")
    case (Inl e)
    with si e1 show ?thesis unfolding tot by (intro exI[of _ s1]) simp
  next
    case (Inr cnt)
    obtain g p k where cnt: "cnt = (g, p, k)" by (cases cnt) auto
    from e1 have pc: "predicted_corpus s1 = predicted_corpus s" by (simp add: extends_def)
    from Cons.IH[of "(a + g, b + p, c + k)" s1] obtain s2 where
      r: "score_items_st sl cfg items (a + g, b + p, c + k) s1
          = (score_items sl (predicted_corpus s) cfg items (a + g, b + p, c + k), s2)"
      and e2: "extends s1 s2" unfolding pc by blast
    from extends_trans[OF e1 e2] si Inr cnt r show ?thesis unfolding tot
      by (intro exI[of _ s2]) simp
  qed
qed

lemma compute_f1_st_pure:
  "\<exists>s'. compute_f1_st sl cfg s = (compute_f1 sl (gold_corpus s) (predicted_corpus s) cfg, s')
        \<and> extends s s'"
proof -
  from score_items_st_pure[of sl cfg "gold_corpus s" "(0, 0, 0)" s] obtain s1 where
    r: "score_items_st sl cfg (gold_corpus s) (0, 0, 0) s
        = (score_items sl (predicted_corpus s) cfg (gold_corpus s) (0, 0, 0), s1)"
    and e: "extends s s1" by blast
  then show ?thesis
    by (intro exI[of _ s1]) (simp add: compute_f1_st_def compute_f1_def split: sum.splits)
qed

text \<open>
  Claim C8. After any sequence of scorer calls the two corpora, and with them every graph,
  are what they were, every list object that existed before is unchanged (the calls write
  only list objects they created, the reconciler only the list of the predicted triples of
  the item, see \<open>reconcile_st_pure\<close>), and every call returns what the scorer returns on
  the graphs as they were at the start.
\<close>

theorem scorer_calls_frame:
  "extends s (snd (scorer_calls set_list cfgs s))
   \<and> fst (scorer_calls set_list cfgs s)
       = map (compute_f1 set_list (gold_corpus s) (predicted_corpus s)) cfgs"
proof (induction cfgs arbitrary: s)
  case Nil
  then show ?case by (simp add: extends_refl)
next
  case (Cons cfg cfgs)
  from compute_f1_st_pure[of set_list cfg s] obtain s1 where
    c: "compute_f1_st set_list cfg s
        = (compute_f1 set_list (gold_corpus s) (predicted_corpus s) cfg, s1)"
    and e1: "extends s s1" by blast
  from e1 have same: "gold_corpus s1 = gold_corpus s" "predicted_corpus s1 = predicted_corpus s"
    by (simp_all add: extends_def)
  from Cons.IH[of s1] have e2: "extends s1 (snd (scorer_calls set_list cfgs s1))"
    and r: "fst (scorer_calls set_list cfgs s1)
       = map (compute_f1 set_list (gold_corpus s) (predicted_corpus s)) cfgs"
    unfolding same by simp_all
  from extends_trans[OF e1 e2] r c show ?case by (simp add: split_beta)
qed

end
